theory Spec2Isabelle
  imports Main "HOL-Library.Word"
begin

unbundle bit_operations_syntax

section \<open>Common types\<close>

type_synonym u8 = "8 word"
type_synonym u16 = "16 word"
type_synonym u32 = "32 word"
type_synonym u64 = "64 word"

text \<open>
  The error codes used by \<^verbatim>\<open>kernel/terminal.cpp\<close> (\<^verbatim>\<open>Error::kSuccess\<close>,
  \<^verbatim>\<open>kFull\<close>, \<^verbatim>\<open>kInvalidFormat\<close>, \<^verbatim>\<open>kInvalidFile\<close>). The header
  \<^verbatim>\<open>error.hpp\<close> is not among the sources; the two remaining codes carry the names
  the specification gives them (\<open>NotFound\<close>, \<open>OutOfMemory\<close>).
\<close>

datatype Error = kSuccess | kFull | kInvalidFormat | kInvalidFile | kNotFound | kOutOfMemory

text \<open>\<^verbatim>\<open>WithError<T>\<close> is a value together with an error code.\<close>

type_synonym 'a WithError = "'a \<times> Error"

section \<open>Argument marshaling: \<^verbatim>\<open>MakeArgVector\<close>\<close>

definition NUL :: char where
  "NUL = CHR 0x00"

text \<open>\<^verbatim>\<open>isspace\<close> of the C locale: space, \<^verbatim>\<open>\t \n \v \f \r\<close>.\<close>

definition isspace :: "char \<Rightarrow> bool" where
  "isspace c = (c = CHR 0x20 \<or> c = CHR 0x09 \<or> c = CHR 0x0A \<or> c = CHR 0x0B
                \<or> c = CHR 0x0C \<or> c = CHR 0x0D)"

text \<open>
  A \<^verbatim>\<open>char*\<close> that is read and written through is a list of bytes; the byte after the
  last element of the list is the terminating NUL of the C string, so reading there
  gives NUL and writing NUL there changes nothing.
\<close>

definition peek :: "char list \<Rightarrow> nat \<Rightarrow> char" where
  "peek buf p = (if p < length buf then buf ! p else NUL)"

text \<open>The C string that starts at offset \<open>p\<close> (what \<^verbatim>\<open>strcpy\<close> and \<^verbatim>\<open>strlen\<close> see).\<close>

definition cstr :: "char list \<Rightarrow> nat \<Rightarrow> string" where
  "cstr buf p = takeWhile (\<lambda>c. c \<noteq> NUL) (drop p buf)"

text \<open>
  The locals \<^verbatim>\<open>argc\<close>, \<^verbatim>\<open>argbuf_index\<close> and the two output arrays. \<^verbatim>\<open>argv[i]\<close> holds
  the address \<^verbatim>\<open>&argbuf[k]\<close>, kept as the offset \<open>k\<close>. \<^verbatim>\<open>argbuf\<close> is the memory from
  its first byte upwards: \<^verbatim>\<open>strcpy\<close> does not look at \<^verbatim>\<open>argbuf_len\<close>. Both counters
  are C \<^verbatim>\<open>int\<close>s that start at 0 and only grow (their overflow beyond \<open>2^31\<close> is not
  modelled).
\<close>

record argstate =
  argc :: nat
  argbuf_index :: nat
  argv :: "nat \<Rightarrow> nat"
  argbuf :: "nat \<Rightarrow> char"

definition strcpy :: "(nat \<Rightarrow> char) \<Rightarrow> nat \<Rightarrow> string \<Rightarrow> (nat \<Rightarrow> char)" where
  "strcpy mem k s =
     (\<lambda>a. if k \<le> a \<and> a < k + length s then s ! (a - k)
          else if a = k + length s then NUL else mem a)"

definition push_to_argv :: "int \<Rightarrow> int \<Rightarrow> string \<Rightarrow> argstate \<Rightarrow> Error \<times> argstate" where
  "push_to_argv argv_len argbuf_len s st =
     (if argv_len \<le> int (argc st) \<or> argbuf_len \<le> int (argbuf_index st) then (kFull, st)
      else (kSuccess,
            st\<lparr> argv := (argv st)(argc st := argbuf_index st),
                argc := argc st + 1,
                argbuf := strcpy (argbuf st) (argbuf_index st) s,
                argbuf_index := argbuf_index st + length s + 1 \<rparr>))"

text \<open>\<^verbatim>\<open>while (isspace(p[0])) ++p;\<close>\<close>

function skip_space :: "char list \<Rightarrow> nat \<Rightarrow> nat" where
  "skip_space buf p = (if isspace (peek buf p) then skip_space buf (p + 1) else p)"
  by pat_completeness auto
termination
  by (relation "measure (\<lambda>(buf, p). length buf - p)")
     (auto simp: peek_def isspace_def NUL_def split: if_splits)

text \<open>\<^verbatim>\<open>while (p[0] != 0 && !isspace(p[0])) ++p;\<close>\<close>

function skip_token :: "char list \<Rightarrow> nat \<Rightarrow> nat" where
  "skip_token buf p =
     (if peek buf p \<noteq> NUL \<and> \<not> isspace (peek buf p) then skip_token buf (p + 1) else p)"
  by pat_completeness auto
termination
  by (relation "measure (\<lambda>(buf, p). length buf - p)")
     (auto simp: peek_def split: if_splits)

declare skip_space.simps [simp del]
declare skip_token.simps [simp del]

lemma skip_space_ge: "p \<le> skip_space buf p"
  by (induction buf p rule: skip_space.induct) (subst skip_space.simps, auto)

lemma skip_token_ge: "p \<le> skip_token buf p"
  by (induction buf p rule: skip_token.induct) (subst skip_token.simps, auto)

text \<open>
  The \<^verbatim>\<open>while (true)\<close> loop of \<^verbatim>\<open>MakeArgVector\<close>, entered with \<^verbatim>\<open>p\<close> at offset \<open>p0\<close>
  of \<^verbatim>\<open>first_arg\<close>. It returns \<^verbatim>\<open>{ argc, err }\<close>, the buffer as the loop leaves it and
  the output arrays.
\<close>

function arg_loop ::
  "int \<Rightarrow> int \<Rightarrow> char list \<Rightarrow> nat \<Rightarrow> argstate \<Rightarrow> nat WithError \<times> char list \<times> argstate" where
  "arg_loop argv_len argbuf_len buf p0 st =
     (let p = skip_space buf p0 in
      if peek buf p = NUL then ((argc st, kSuccess), buf, st)
      else
        let arg = p;
            q = skip_token buf p;
            is_end = (peek buf q = NUL);
            buf' = buf[q := NUL];
            (err, st') = push_to_argv argv_len argbuf_len (cstr buf' arg) st
        in if err \<noteq> kSuccess then ((argc st', err), buf', st')
           else if is_end then ((argc st', kSuccess), buf', st')
           else arg_loop argv_len argbuf_len buf' (q + 1) st')"
  by pat_completeness auto
termination
proof (relation "measure (\<lambda>(al, bl, buf, p, st). length buf - p)", goal_cases)
  case 1
  show ?case by simp
next
  case (2 argv_len argbuf_len buf p0 st p arg q is_end buf' pr err st')
  have "p0 \<le> q"
    using 2 skip_space_ge [of p0 buf] skip_token_ge [of p buf] by simp
  moreover have "q < length buf"
    using 2 by (auto simp: peek_def split: if_splits)
  ultimately show ?case using 2 by simp
qed

declare arg_loop.simps [simp del]

text \<open>
  \<^verbatim>\<open>MakeArgVector(command, first_arg, argv, argv_len, argbuf, argbuf_len)\<close>.
  \<^verbatim>\<open>first_arg\<close> may be the null pointer (\<open>None\<close>). The result is the returned
  \<^verbatim>\<open>WithError<int>\<close>, the \<^verbatim>\<open>first_arg\<close> buffer after the call and the output arrays.
\<close>

definition MakeArgVector ::
  "char list \<Rightarrow> char list option \<Rightarrow> (nat \<Rightarrow> nat) \<Rightarrow> int \<Rightarrow> (nat \<Rightarrow> char) \<Rightarrow> int
     \<Rightarrow> nat WithError \<times> char list option \<times> argstate" where
  "MakeArgVector command first_arg argv0 argv_len argbuf0 argbuf_len =
     (let st0 = \<lparr> argc = 0, argbuf_index = 0, argv = argv0, argbuf = argbuf0 \<rparr>;
          (err, st) = push_to_argv argv_len argbuf_len (cstr command 0) st0
      in if err \<noteq> kSuccess then ((argc st, err), first_arg, st)
         else case first_arg of
                None \<Rightarrow> ((argc st, kSuccess), None, st)
              | Some buf \<Rightarrow>
                  (let (r, buf', st') = arg_loop argv_len argbuf_len buf 0 st
                   in (r, Some buf', st')))"

subsection \<open>The strings \<^verbatim>\<open>MakeArgVector\<close> pushes, and what the output arrays hold\<close>

text \<open>
  The tokens the loop scans from offset \<open>p0\<close> on when no push fails: the same two
  inner loops, without the pushes.
\<close>

function tokens :: "char list \<Rightarrow> nat \<Rightarrow> string list" where
  "tokens buf p0 =
     (let p = skip_space buf p0 in
      if peek buf p = NUL then []
      else
        let q = skip_token buf p
        in take (q - p) (drop p buf) # (if peek buf q = NUL then [] else tokens buf (q + 1)))"
  by pat_completeness auto
termination
proof (relation "measure (\<lambda>(buf, p). length buf - p)", goal_cases)
  case 1
  show ?case by simp
next
  case (2 buf p0 p q)
  have "p0 \<le> q"
    using 2 skip_space_ge [of p0 buf] skip_token_ge [of p buf] by simp
  moreover have "q < length buf"
    using 2 by (auto simp: peek_def split: if_splits)
  ultimately show ?case by simp
qed

declare tokens.simps [simp del]

text \<open>Calls of \<^verbatim>\<open>push_to_argv\<close> in a row, up to the first that fails.\<close>

fun push_all :: "int \<Rightarrow> int \<Rightarrow> string list \<Rightarrow> argstate \<Rightarrow> Error \<times> argstate" where
  "push_all al bl [] st = (kSuccess, st)"
| "push_all al bl (s # ss) st =
     (case push_to_argv al bl s st of
        (err, st') \<Rightarrow> if err \<noteq> kSuccess then (err, st') else push_all al bl ss st')"

text \<open>The bytes of \<open>s\<close> followed by NUL lie at offset \<open>k\<close> of the memory.\<close>

definition holds :: "(nat \<Rightarrow> char) \<Rightarrow> nat \<Rightarrow> string \<Rightarrow> bool" where
  "holds mem k s = (map (\<lambda>j. mem (k + j)) [0..<length s] = s \<and> mem (k + length s) = NUL)"


lemma peek_update_lt: "q < p \<Longrightarrow> peek (buf[q := x]) p = peek buf p"
  by (simp add: peek_def)

lemma skip_space_update: "q < p \<Longrightarrow> skip_space (buf[q := x]) p = skip_space buf p"
proof (induction buf p rule: skip_space.induct)
  case (1 buf p)
  show ?case
    using 1 by (subst skip_space.simps, subst (2) skip_space.simps) (simp add: peek_update_lt)
qed

lemma skip_token_update: "q < p \<Longrightarrow> skip_token (buf[q := x]) p = skip_token buf p"
proof (induction buf p rule: skip_token.induct)
  case (1 buf p)
  show ?case
    using 1 by (subst skip_token.simps, subst (2) skip_token.simps) (simp add: peek_update_lt)
qed

lemma tokens_update: "q < p \<Longrightarrow> tokens (buf[q := x]) p = tokens buf p"
proof (induction buf p arbitrary: rule: tokens.induct)
  case (1 buf p0)
  let ?p = "skip_space buf p0"
  let ?q = "skip_token buf ?p"
  have a: "q < ?p" using 1(2) skip_space_ge [of p0 buf] by simp
  have b: "q < ?q" using a skip_token_ge [of ?p buf] by simp
  show ?case
  proof (cases "peek buf ?p = NUL")
    case True
    then show ?thesis
      using 1(2) a by (subst tokens.simps, subst (2) tokens.simps)
        (simp add: skip_space_update peek_update_lt)
  next
    case False
    show ?thesis
    proof (cases "peek buf ?q = NUL")
      case True
      then show ?thesis
        using 1(2) a b False by (subst tokens.simps, subst (2) tokens.simps)
          (simp add: skip_space_update skip_token_update peek_update_lt Let_def drop_update_cancel)
    next
      case nend: False
      have "tokens (buf[q := x]) (?q + 1) = tokens buf (?q + 1)"
        using 1(1) [OF refl False refl nend] b by simp
      then show ?thesis
        using 1(2) a b False nend by (subst tokens.simps, subst (2) tokens.simps)
          (simp add: skip_space_update skip_token_update peek_update_lt Let_def drop_update_cancel)
    qed
  qed
qed

lemma skip_token_span:
  "p \<le> i \<Longrightarrow> i < skip_token buf p \<Longrightarrow> peek buf i \<noteq> NUL \<and> \<not> isspace (peek buf i)"
proof (induction buf p rule: skip_token.induct)
  case (1 buf p)
  show ?case
  proof (cases "peek buf p \<noteq> NUL \<and> \<not> isspace (peek buf p)")
    case True
    then have eq: "skip_token buf p = skip_token buf (p + 1)"
      by (subst skip_token.simps) simp
    show ?thesis
    proof (cases "i = p")
      case True
      with \<open>peek buf p \<noteq> NUL \<and> \<not> isspace (peek buf p)\<close> show ?thesis by simp
    next
      case False
      then show ?thesis using 1 True eq by simp
    qed
  next
    case False
    then have "skip_token buf p = p" by (subst skip_token.simps) auto
    then show ?thesis using 1 by simp
  qed
qed

lemma skip_token_stop:
  "peek buf (skip_token buf p) = NUL \<or> isspace (peek buf (skip_token buf p))"
proof (induction buf p rule: skip_token.induct)
  case (1 buf p)
  show ?case
  proof (cases "peek buf p \<noteq> NUL \<and> \<not> isspace (peek buf p)")
    case True
    then have "skip_token buf p = skip_token buf (p + 1)"
      by (subst skip_token.simps) simp
    then show ?thesis using 1 True by simp
  next
    case False
    then have "skip_token buf p = p" by (subst skip_token.simps) auto
    then show ?thesis using False by auto
  qed
qed

lemma skip_space_span:
  "p \<le> i \<Longrightarrow> i < skip_space buf p \<Longrightarrow> isspace (peek buf i)"
proof (induction buf p rule: skip_space.induct)
  case (1 buf p)
  show ?case
  proof (cases "isspace (peek buf p)")
    case True
    then have eq: "skip_space buf p = skip_space buf (p + 1)"
      by (subst skip_space.simps) simp
    show ?thesis
    proof (cases "i = p")
      case True
      with \<open>isspace (peek buf p)\<close> show ?thesis by simp
    next
      case False
      then show ?thesis using 1 True eq by simp
    qed
  next
    case False
    then have "skip_space buf p = p" by (subst skip_space.simps) simp
    then show ?thesis using 1 by simp
  qed
qed

lemma skip_space_stop: "\<not> isspace (peek buf (skip_space buf p))"
proof (induction buf p rule: skip_space.induct)
  case (1 buf p)
  show ?case
  proof (cases "isspace (peek buf p)")
    case True
    then have "skip_space buf p = skip_space buf (p + 1)"
      by (subst skip_space.simps) simp
    then show ?thesis using 1 True by simp
  next
    case False
    then have "skip_space buf p = p" by (subst skip_space.simps) simp
    then show ?thesis using False by simp
  qed
qed

lemma skip_token_le_length: "p \<le> length buf \<Longrightarrow> skip_token buf p \<le> length buf"
proof (rule ccontr)
  assume p: "p \<le> length buf" and "\<not> skip_token buf p \<le> length buf"
  then have "length buf < skip_token buf p" by simp
  from skip_token_span [OF p this] show False by (simp add: peek_def)
qed

lemma takeWhile_take_all:
  "n \<le> length xs \<Longrightarrow> (\<forall>i<n. P (xs ! i)) \<Longrightarrow> (n < length xs \<longrightarrow> \<not> P (xs ! n))
     \<Longrightarrow> takeWhile P xs = take n xs"
proof (induction xs arbitrary: n)
  case Nil
  then show ?case by simp
next
  case (Cons x xs)
  show ?case
  proof (cases n)
    case 0
    then show ?thesis using Cons.prems by simp
  next
    case (Suc m)
    have "P x" using Cons.prems(2) Suc by auto
    moreover have "takeWhile P xs = take m xs"
    proof (rule Cons.IH)
      show "m \<le> length xs" using Cons.prems(1) Suc by simp
      show "\<forall>i<m. P (xs ! i)" using Cons.prems(2) Suc by auto
      show "m < length xs \<longrightarrow> \<not> P (xs ! m)" using Cons.prems(3) Suc by auto
    qed
    ultimately show ?thesis using Suc by simp
  qed
qed

lemma cstr_token:
  assumes p: "p \<le> length buf" and q: "q = skip_token buf p"
  shows "cstr (buf[q := NUL]) p = take (q - p) (drop p buf)"
proof -
  have pq: "p \<le> q" using q skip_token_ge by simp
  have ql: "q \<le> length buf" using q p skip_token_le_length by simp
  let ?xs = "drop p (buf[q := NUL])"
  have len: "q - p \<le> length ?xs" using pq ql by simp
  have a: "\<forall>i<q - p. ?xs ! i \<noteq> NUL"
  proof (intro allI impI)
    fix i assume i: "i < q - p"
    then have "p + i < q" by simp
    then have "peek buf (p + i) \<noteq> NUL"
      using skip_token_span [of p "p + i" buf] q by simp
    moreover have "p + i < length buf" using i ql by simp
    moreover have "?xs ! i = buf ! (p + i)" using i ql by simp
    ultimately show "?xs ! i \<noteq> NUL" by (simp add: peek_def)
  qed
  have b: "q - p < length ?xs \<longrightarrow> \<not> (?xs ! (q - p) \<noteq> NUL)"
    using pq ql by auto
  have "takeWhile (\<lambda>c. c \<noteq> NUL) ?xs = take (q - p) ?xs"
    by (rule takeWhile_take_all [OF len a b])
  moreover have "take (q - p) ?xs = take (q - p) (drop p buf)"
    using pq by (simp add: drop_update_swap)
  ultimately show ?thesis by (simp add: cstr_def)
qed

lemma arg_loop_push_all:
  "arg_loop al bl buf p st = (r, buf', st') \<Longrightarrow>
     r = (argc st', fst (push_all al bl (tokens buf p) st)) \<and>
     st' = snd (push_all al bl (tokens buf p) st)"
proof (induction al bl buf p st rule: arg_loop.induct)
  case (1 al bl buf p0 st)
  let ?p = "skip_space buf p0"
  let ?q = "skip_token buf ?p"
  let ?buf = "buf[?q := NUL]"
  show ?case
  proof (cases "peek buf ?p = NUL")
    case True
    then have "tokens buf p0 = []" by (subst tokens.simps) simp
    moreover have "r = (argc st, kSuccess) \<and> st' = st"
      using "1.prems" True by (subst (asm) arg_loop.simps) auto
    ultimately show ?thesis by simp
  next
    case False
    then have pl: "?p \<le> length buf" by (auto simp: peek_def split: if_splits)
    have tok: "cstr ?buf ?p = take (?q - ?p) (drop ?p buf)"
      by (rule cstr_token [OF pl refl])
    obtain err st1 where push: "push_to_argv al bl (cstr ?buf ?p) st = (err, st1)"
      by (cases "push_to_argv al bl (cstr ?buf ?p) st") auto
    have toks: "tokens buf p0 =
        cstr ?buf ?p # (if peek buf ?q = NUL then [] else tokens buf (?q + 1))"
      using False tok by (subst tokens.simps) (simp add: Let_def)
    show ?thesis
    proof (cases "err \<noteq> kSuccess")
      case True
      have "r = (argc st1, err) \<and> st' = st1"
        using "1.prems" False push True by (subst (asm) arg_loop.simps) (auto simp: Let_def)
      then show ?thesis using toks push True by simp
    next
      case ok: False
      show ?thesis
      proof (cases "peek buf ?q = NUL")
        case True
        have "r = (argc st1, kSuccess) \<and> st' = st1"
          using "1.prems" False push ok True
          by (subst (asm) arg_loop.simps) (auto simp: Let_def)
        then show ?thesis using toks push ok True by simp
      next
        case nend: False
        have rec: "arg_loop al bl ?buf (?q + 1) st1 = (r, buf', st')"
          using "1.prems" False push ok nend
          by (subst (asm) arg_loop.simps) (auto simp: Let_def)
        have ih: "r = (argc st', fst (push_all al bl (tokens ?buf (?q + 1)) st1)) \<and>
                  st' = snd (push_all al bl (tokens ?buf (?q + 1)) st1)"
          using "1.IH" [OF refl False refl refl refl refl push [symmetric] refl _ nend rec] ok
          by simp
        have "tokens ?buf (?q + 1) = tokens buf (?q + 1)"
          by (rule tokens_update) simp
        then show ?thesis using ih toks push ok nend by simp
      qed
    qed
  qed
qed

text \<open>The offset behind the strings \<open>ss\<close>, each stored with its NUL.\<close>

definition offs :: "string list \<Rightarrow> nat" where
  "offs ss = sum_list (map (\<lambda>s. length s + 1) ss)"

text \<open>
  The output arrays hold exactly the strings \<open>strs\<close>: \<^verbatim>\<open>argv[i]\<close> points at the
  \<open>i\<close>-th string, which lies in \<^verbatim>\<open>argbuf\<close> with its NUL.
\<close>

definition stored :: "argstate \<Rightarrow> string list \<Rightarrow> bool" where
  "stored st strs =
     (argc st = length strs \<and> argbuf_index st = offs strs \<and>
      (\<forall>i<length strs. argv st i = offs (take i strs) \<and>
                         holds (argbuf st) (argv st i) (strs ! i)))"

text \<open>Everything the call tries to push: the command, then the tokens of \<^verbatim>\<open>first_arg\<close>.\<close>

definition all_args :: "char list \<Rightarrow> char list option \<Rightarrow> string list" where
  "all_args command first_arg =
     cstr command 0 # (case first_arg of None \<Rightarrow> [] | Some buf \<Rightarrow> tokens buf 0)"

lemma offs_snoc: "offs (ss @ [s]) = offs ss + length s + 1"
  by (simp add: offs_def)

lemma offs_take_le: "i < length ss \<Longrightarrow> offs (take i ss) + length (ss ! i) < offs ss"
proof (induction ss arbitrary: i)
  case Nil
  then show ?case by simp
next
  case (Cons s ss)
  show ?case
  proof (cases i)
    case 0
    then show ?thesis by (simp add: offs_def)
  next
    case (Suc j)
    then have "offs (take j ss) + length (ss ! j) < offs ss"
      using Cons by simp
    then show ?thesis using Suc by (simp add: offs_def)
  qed
qed

lemma holds_strcpy_new: "holds (strcpy mem k s) k s"
  by (auto simp: holds_def strcpy_def intro: nth_equalityI)

lemma holds_strcpy_old:
  assumes lt: "j + length t < k" and h: "holds mem j t"
  shows "holds (strcpy mem k s) j t"
proof -
  have m: "map (\<lambda>a. strcpy mem k s (j + a)) [0..<length t] = map (\<lambda>a. mem (j + a)) [0..<length t]"
  proof (rule map_cong [OF refl])
    fix x assume "x \<in> set [0..<length t]"
    then show "strcpy mem k s (j + x) = mem (j + x)"
      using lt by (simp add: strcpy_def)
  qed
  have e: "strcpy mem k s (j + length t) = mem (j + length t)"
    using lt by (simp add: strcpy_def)
  show ?thesis
    unfolding holds_def m e using h [unfolded holds_def] by blast
qed

lemma push_fail:
  "push_to_argv al bl s st = (err, st') \<Longrightarrow> err \<noteq> kSuccess \<Longrightarrow>
     err = kFull \<and> st' = st \<and> (al \<le> int (argc st) \<or> bl \<le> int (argbuf_index st))"
  by (auto simp: push_to_argv_def split: if_splits)

lemma push_ok_iff:
  "fst (push_to_argv al bl s st) = kSuccess \<longleftrightarrow> int (argc st) < al \<and> int (argbuf_index st) < bl"
  by (auto simp: push_to_argv_def)

lemma push_stored:
  assumes st: "stored st strs" and push: "push_to_argv al bl s st = (kSuccess, st')"
  shows "stored st' (strs @ [s])"
proof -
  have st': "st' = st\<lparr> argv := (argv st)(argc st := argbuf_index st),
                argc := argc st + 1,
                argbuf := strcpy (argbuf st) (argbuf_index st) s,
                argbuf_index := argbuf_index st + length s + 1 \<rparr>"
    using push by (auto simp: push_to_argv_def split: if_splits)
  have c: "argc st = length strs" and ix: "argbuf_index st = offs strs"
    using st by (simp_all add: stored_def)
  have each: "argv st' i = offs (take i (strs @ [s])) \<and>
        holds (argbuf st') (argv st' i) ((strs @ [s]) ! i)" if i: "i < length (strs @ [s])" for i
  proof (cases "i < length strs")
    case True
    then have old: "argv st i = offs (take i strs)" "holds (argbuf st) (argv st i) (strs ! i)"
      using st by (auto simp: stored_def)
    have "argv st i + length (strs ! i) < argbuf_index st"
      using old(1) ix offs_take_le [OF True] by simp
    then have "holds (strcpy (argbuf st) (argbuf_index st) s) (argv st i) (strs ! i)"
      using old(2) by (rule holds_strcpy_old)
    then show ?thesis using True old c by (simp add: st' nth_append)
  next
    case False
    then have "i = length strs" using i by simp
    then show ?thesis using c ix by (simp add: st' holds_strcpy_new)
  qed
  show ?thesis
    unfolding stored_def
  proof (intro conjI)
    show "argc st' = length (strs @ [s])" using c by (simp add: st')
    show "argbuf_index st' = offs (strs @ [s])" using ix by (simp add: st' offs_snoc)
    show "\<forall>i<length (strs @ [s]). argv st' i = offs (take i (strs @ [s])) \<and>
        holds (argbuf st') (argv st' i) ((strs @ [s]) ! i)"
      using each by blast
  qed
qed

lemma push_all_append:
  "push_all al bl (xs @ ys) st =
     (case push_all al bl xs st of
        (err, st') \<Rightarrow> if err \<noteq> kSuccess then (err, st') else push_all al bl ys st')"
  by (induction xs arbitrary: st) (auto split: prod.splits)

lemma push_all_stored:
  "stored st strs \<Longrightarrow> push_all al bl ss st = (err, st') \<Longrightarrow>
     \<exists>k\<le>length ss. stored st' (strs @ take k ss) \<and>
        (err = kSuccess \<longrightarrow> k = length ss) \<and>
        (err \<noteq> kSuccess \<longrightarrow> err = kFull \<and> k < length ss \<and>
           (al \<le> int (argc st') \<or> bl \<le> int (argbuf_index st')))"
proof (induction ss arbitrary: st strs)
  case Nil
  then show ?case by simp
next
  case (Cons s ss)
  obtain e st1 where push: "push_to_argv al bl s st = (e, st1)"
    by (cases "push_to_argv al bl s st") auto
  show ?case
  proof (cases "e = kSuccess")
    case False
    then have "err = kFull \<and> st' = st \<and> (al \<le> int (argc st) \<or> bl \<le> int (argbuf_index st))"
      using push_fail [OF push] Cons.prems(2) push by auto
    then show ?thesis using Cons.prems(1) by (intro exI [of _ 0]) simp
  next
    case True
    then have s1: "stored st1 (strs @ [s])"
      using push_stored [OF Cons.prems(1)] push by simp
    have "push_all al bl ss st1 = (err, st')"
      using Cons.prems(2) push True by simp
    from Cons.IH [OF s1 this] obtain k where k: "k \<le> length ss"
      "stored st' ((strs @ [s]) @ take k ss)"
      "err = kSuccess \<longrightarrow> k = length ss"
      "err \<noteq> kSuccess \<longrightarrow> err = kFull \<and> k < length ss \<and>
           (al \<le> int (argc st') \<or> bl \<le> int (argbuf_index st'))"
      by blast
    then show ?thesis by (intro exI [of _ "Suc k"]) simp
  qed
qed

text \<open>All of \<open>ss\<close> is stored when there is room for it.\<close>

lemma push_all_room:
  "stored st strs \<Longrightarrow> int (length strs + length ss) \<le> al \<Longrightarrow>
   (ss \<noteq> [] \<longrightarrow> int (offs (strs @ butlast ss)) < bl) \<Longrightarrow>
     fst (push_all al bl ss st) = kSuccess \<and> stored (snd (push_all al bl ss st)) (strs @ ss)"
proof (induction ss arbitrary: st strs)
  case Nil
  then show ?case by simp
next
  case (Cons s ss)
  have le: "offs strs \<le> offs (strs @ butlast (s # ss))"
    by (simp add: offs_def)
  have "int (argc st) < al" "int (argbuf_index st) < bl"
    using Cons.prems le by (auto simp: stored_def)
  then have "fst (push_to_argv al bl s st) = kSuccess"
    by (simp add: push_ok_iff)
  then obtain st1 where push: "push_to_argv al bl s st = (kSuccess, st1)"
    by (cases "push_to_argv al bl s st") auto
  have s1: "stored st1 (strs @ [s])"
    by (rule push_stored [OF Cons.prems(1) push])
  have "fst (push_all al bl ss st1) = kSuccess \<and>
        stored (snd (push_all al bl ss st1)) ((strs @ [s]) @ ss)"
  proof (rule Cons.IH [OF s1])
    show "int (length (strs @ [s]) + length ss) \<le> al" using Cons.prems(2) by simp
    show "ss \<noteq> [] \<longrightarrow> int (offs ((strs @ [s]) @ butlast ss)) < bl"
      using Cons.prems(3) by (auto split: if_splits)
  qed
  then show ?case using push by simp
qed

lemma MakeArgVector_push_all:
  assumes "MakeArgVector command first_arg argv0 al argbuf0 bl = (r, fa', st')"
  defines "st0 \<equiv> \<lparr> argc = 0, argbuf_index = 0, argv = argv0, argbuf = argbuf0 \<rparr>"
  shows "r = (argc st', fst (push_all al bl (all_args command first_arg) st0)) \<and>
         st' = snd (push_all al bl (all_args command first_arg) st0)"
proof -
  obtain e st1 where push: "push_to_argv al bl (cstr command 0) st0 = (e, st1)"
    by (cases "push_to_argv al bl (cstr command 0) st0") auto
  show ?thesis
  proof (cases "e = kSuccess")
    case False
    then show ?thesis
      using assms(1) push by (auto simp: MakeArgVector_def all_args_def st0_def Let_def)
  next
    case True
    show ?thesis
    proof (cases first_arg)
      case None
      then show ?thesis
        using assms(1) push True
        by (auto simp: MakeArgVector_def all_args_def st0_def Let_def)
    next
      case (Some buf)
      obtain r1 b1 s1 where loop: "arg_loop al bl buf 0 st1 = (r1, b1, s1)"
        by (cases "arg_loop al bl buf 0 st1") auto
      have "r = r1 \<and> st' = s1"
        using assms(1) push True Some loop
        by (auto simp: MakeArgVector_def st0_def Let_def)
      then show ?thesis
        using arg_loop_push_all [OF loop] push True Some
        by (simp add: all_args_def)
    qed
  qed
qed

lemma stored_init: "stored \<lparr> argc = 0, argbuf_index = 0, argv = a, argbuf = b \<rparr> []"
  by (simp add: stored_def offs_def)

text \<open>
  C5: with \<^verbatim>\<open>argv_len = 32\<close>, a call that has more than 32 strings to push (the
  command and at least 32 tokens) fails with \<open>kFull\<close>; when the first 32 strings fit
  into \<^verbatim>\<open>argbuf\<close>, so that a 33rd push is attempted, the returned count is 32.
  Whenever the call fails with \<open>kFull\<close> (entry limit or exhausted string buffer), the
  returned count is the number of strings pushed before the failing push, it is 32 unless
  the string buffer is exhausted, and every one of these entries still points at its
  string, intact in \<^verbatim>\<open>argbuf\<close>.
\<close>

theorem MakeArgVector_Full:
  assumes run: "MakeArgVector command first_arg argv0 32 argbuf0 argbuf_len = ((n, err), first_arg', st')"
  defines "args \<equiv> all_args command first_arg"
  shows "(32 < length args \<longrightarrow> err = kFull) \<and>
         (32 < length args \<and> int (offs (take 31 args)) < argbuf_len \<longrightarrow> n = 32) \<and>
         (err = kFull \<longrightarrow>
            n = argc st' \<and> n \<le> 32 \<and> n < length args \<and>
            (n = 32 \<or> argbuf_len \<le> int (argbuf_index st')) \<and>
            (\<forall>i<n. holds (argbuf st') (argv st' i) (args ! i)))"
proof -
  let ?st0 = "\<lparr> argc = 0, argbuf_index = 0, argv = argv0, argbuf = argbuf0 \<rparr>"
  have r: "n = argc st'" "err = fst (push_all 32 argbuf_len args ?st0)"
    "st' = snd (push_all 32 argbuf_len args ?st0)"
    using MakeArgVector_push_all [OF run] by (simp_all add: args_def)
  then have pa: "push_all 32 argbuf_len args ?st0 = (err, st')" by simp
  from push_all_stored [OF stored_init pa] obtain k where k: "k \<le> length args"
    "stored st' ([] @ take k args)" "err = kSuccess \<longrightarrow> k = length args"
    "err \<noteq> kSuccess \<longrightarrow> err = kFull \<and> k < length args \<and>
       (32 \<le> int (argc st') \<or> argbuf_len \<le> int (argbuf_index st'))"
    by blast
  have nk: "n = k" using k(1,2) r(1) by (simp add: stored_def)
  have le32: "n \<le> 32"
  proof (rule ccontr)
    assume "\<not> n \<le> 32"
    then have big: "32 < k" using nk by simp
    have "push_all 32 argbuf_len (take 32 args @ drop 32 args) ?st0 = (err, st')"
      using pa by simp
    moreover obtain e1 s1 where p1: "push_all 32 argbuf_len (take 32 args) ?st0 = (e1, s1)"
      by (cases "push_all 32 argbuf_len (take 32 args) ?st0") auto
    from push_all_stored [OF stored_init p1] obtain j where j: "j \<le> length (take 32 args)"
      "stored s1 ([] @ take j (take 32 args))" "e1 = kSuccess \<longrightarrow> j = length (take 32 args)"
      by blast
    have "e1 \<noteq> kSuccess \<Longrightarrow> False"
    proof -
      assume f: "e1 \<noteq> kSuccess"
      then have "(err, st') = (e1, s1)"
        using pa p1 push_all_append [of 32 argbuf_len "take 32 args" "drop 32 args" ?st0]
        by simp
      then have "argc st' = j" using j(2) j(1) by (simp add: stored_def)
      then show False using big nk r(1) j(1) by simp
    qed
    then have ok: "e1 = kSuccess" by blast
    then have c1: "argc s1 = 32" using j big k(1) by (simp add: stored_def)
    have rest: "push_all 32 argbuf_len (drop 32 args) s1 = (err, st')"
      using pa p1 ok push_all_append [of 32 argbuf_len "take 32 args" "drop 32 args" ?st0]
      by simp
    have "drop 32 args \<noteq> []" using big k(1) by simp
    then obtain a as where das: "drop 32 args = a # as" by (cases "drop 32 args") auto
    have "push_to_argv 32 argbuf_len a s1 = (kFull, s1)"
      using c1 by (simp add: push_to_argv_def)
    then have "st' = s1" using rest das by simp
    then show False using c1 r(1) \<open>\<not> n \<le> 32\<close> by simp
  qed
  have full: "32 < length args \<longrightarrow> err = kFull"
    using k nk le32 by auto
  have n32: "n = 32" if big: "32 < length args" and room: "int (offs (take 31 args)) < argbuf_len"
  proof -
    have "butlast (take 32 args) = take 31 args"
      using big by (simp add: butlast_take)
    then have "fst (push_all 32 argbuf_len (take 32 args) ?st0) = kSuccess \<and>
          stored (snd (push_all 32 argbuf_len (take 32 args) ?st0)) ([] @ take 32 args)"
      using big room by (intro push_all_room [OF stored_init]) auto
    then obtain s1 where p1: "push_all 32 argbuf_len (take 32 args) ?st0 = (kSuccess, s1)"
      and s1: "stored s1 (take 32 args)"
      by (cases "push_all 32 argbuf_len (take 32 args) ?st0") auto
    have c1: "argc s1 = 32" using s1 big by (simp add: stored_def)
    have "push_all 32 argbuf_len (take 32 args @ drop 32 args) ?st0 = (err, st')"
      using pa by simp
    then have rest: "push_all 32 argbuf_len (drop 32 args) s1 = (err, st')"
      using p1 push_all_append [of 32 argbuf_len "take 32 args" "drop 32 args" ?st0] by simp
    have "drop 32 args \<noteq> []" using big by simp
    then obtain a as where das: "drop 32 args = a # as" by (cases "drop 32 args") auto
    have "push_to_argv 32 argbuf_len a s1 = (kFull, s1)"
      using c1 by (simp add: push_to_argv_def)
    then have "st' = s1" using rest das by simp
    then show ?thesis using c1 r(1) by simp
  qed
  have third: "n = argc st' \<and> n \<le> 32 \<and> n < length args \<and>
            (n = 32 \<or> argbuf_len \<le> int (argbuf_index st')) \<and>
            (\<forall>i<n. holds (argbuf st') (argv st' i) (args ! i))" if e: "err = kFull"
  proof -
    have a: "k < length args" "32 \<le> int (argc st') \<or> argbuf_len \<le> int (argbuf_index st')"
      using k(4) e by auto
    have "\<forall>i<n. holds (argbuf st') (argv st' i) (args ! i)"
      using k(2) nk a(1) by (auto simp: stored_def)
    then show ?thesis using a nk le32 r(1) by auto
  qed
  show ?thesis using full n32 third by blast
qed

theorem MakeArgVector_Full_witness:
  "32 < length (all_args ''a'' (Some (concat (replicate 32 '' b'')))) \<and>
   fst (MakeArgVector ''a'' (Some (concat (replicate 32 '' b''))) (\<lambda>_. 0) 32 (\<lambda>_. NUL) 3840)
     = (32, kFull)"
proof -
  let ?R = "MakeArgVector ''a'' (Some (concat (replicate 32 '' b''))) (\<lambda>_. 0) 32 (\<lambda>_. NUL) 3840"
  have run: "?R = ((fst (fst ?R), snd (fst ?R)), fst (snd ?R), snd (snd ?R))" by simp
  have big: "32 < length (all_args ''a'' (Some (concat (replicate 32 '' b''))))"
    by code_simp
  have room: "int (offs (take 31 (all_args ''a'' (Some (concat (replicate 32 '' b'')))))) < 3840"
    by code_simp
  from MakeArgVector_Full [OF run] big room
  have "snd (fst ?R) = kFull" "fst (fst ?R) = 32" by blast+
  then show ?thesis using big by (simp add: prod_eq_iff)
qed

subsection \<open>What \<^verbatim>\<open>MakeArgVector\<close> does to \<^verbatim>\<open>first_arg\<close>\<close>

text \<open>
  The offsets at which the tokens scanned from \<open>p0\<close> on end, that is, where the loop
  executes \<^verbatim>\<open>p[0] = 0\<close>.
\<close>

function token_ends :: "char list \<Rightarrow> nat \<Rightarrow> nat list" where
  "token_ends buf p0 =
     (let p = skip_space buf p0 in
      if peek buf p = NUL then []
      else
        let q = skip_token buf p
        in q # (if peek buf q = NUL then [] else token_ends buf (q + 1)))"
  by pat_completeness auto
termination
proof (relation "measure (\<lambda>(buf, p). length buf - p)", goal_cases)
  case 1
  show ?case by simp
next
  case (2 buf p0 p q)
  have "p0 \<le> q"
    using 2 skip_space_ge [of p0 buf] skip_token_ge [of p buf] by simp
  moreover have "q < length buf"
    using 2 by (auto simp: peek_def split: if_splits)
  ultimately show ?case by simp
qed

declare token_ends.simps [simp del]


lemma token_ends_update: "q < p \<Longrightarrow> token_ends (buf[q := x]) p = token_ends buf p"
proof (induction buf p arbitrary: rule: token_ends.induct)
  case (1 buf p0)
  let ?p = "skip_space buf p0"
  let ?q = "skip_token buf ?p"
  have a: "q < ?p" using 1(2) skip_space_ge [of p0 buf] by simp
  have b: "q < ?q" using a skip_token_ge [of ?p buf] by simp
  show ?case
  proof (cases "peek buf ?p = NUL")
    case True
    then show ?thesis
      using 1(2) a by (subst token_ends.simps, subst (2) token_ends.simps)
        (simp add: skip_space_update peek_update_lt)
  next
    case False
    show ?thesis
    proof (cases "peek buf ?q = NUL")
      case True
      then show ?thesis
        using 1(2) a b False by (subst token_ends.simps, subst (2) token_ends.simps)
          (simp add: skip_space_update skip_token_update peek_update_lt Let_def)
    next
      case nend: False
      have "token_ends (buf[q := x]) (?q + 1) = token_ends buf (?q + 1)"
        using 1(1) [OF refl False refl nend] b by simp
      then show ?thesis
        using 1(2) a b False nend by (subst token_ends.simps, subst (2) token_ends.simps)
          (simp add: skip_space_update skip_token_update peek_update_lt Let_def)
    qed
  qed
qed

lemma token_ends_first:
  assumes j: "j < length (token_ends buf p)" and sp: "isspace (peek buf (token_ends buf p ! j))"
  shows "isspace (peek buf (hd (token_ends buf p)))"
proof -
  let ?p = "skip_space buf p"
  let ?q = "skip_token buf ?p"
  have ne: "peek buf ?p \<noteq> NUL"
    using j by (subst (asm) token_ends.simps) (auto split: if_splits)
  then have te: "token_ends buf p = ?q # (if peek buf ?q = NUL then [] else token_ends buf (?q + 1))"
    by (subst token_ends.simps) (simp add: Let_def)
  show ?thesis
  proof (cases "peek buf ?q = NUL")
    case True
    then have "token_ends buf p = [?q]" using te by simp
    then show ?thesis using j sp by simp
  next
    case False
    then have "isspace (peek buf ?q)" using skip_token_stop [of buf ?p] by simp
    then show ?thesis using te by simp
  qed
qed

lemma push_argc:
  "push_to_argv al bl s st = (e, st') \<Longrightarrow>
     argc st' = (if e = kSuccess then argc st + 1 else argc st)"
  by (auto simp: push_to_argv_def split: if_splits)

lemma arg_loop_frame:
  "arg_loop al bl buf p st = (r, buf', st') \<Longrightarrow>
     length buf' = length buf \<and>
     (\<forall>i<length buf. buf' ! i \<noteq> buf ! i \<longrightarrow> p \<le> i \<and> isspace (buf ! i) \<and> buf' ! i = NUL) \<and>
     (\<forall>j<length (token_ends buf p). j \<le> fst r - argc st \<longrightarrow>
         peek buf' (token_ends buf p ! j) = NUL)"
proof (induction al bl buf p st rule: arg_loop.induct)
  case (1 al bl buf p0 st)
  let ?p = "skip_space buf p0"
  let ?q = "skip_token buf ?p"
  let ?buf = "buf[?q := NUL]"
  show ?case
  proof (cases "peek buf ?p = NUL")
    case True
    then have "token_ends buf p0 = []" by (subst token_ends.simps) simp
    moreover have "buf' = buf"
      using "1.prems" True by (subst (asm) arg_loop.simps) auto
    ultimately show ?thesis by simp
  next
    case False
    then have pl: "?p < length buf" by (auto simp: peek_def split: if_splits)
    have p0q: "p0 \<le> ?q"
      using skip_space_ge [of p0 buf] skip_token_ge [of ?p buf] by simp
    have stop: "peek buf ?q = NUL \<or> isspace (peek buf ?q)"
      by (rule skip_token_stop)
    have one: "length ?buf = length buf \<and>
       (\<forall>i<length buf. ?buf ! i \<noteq> buf ! i \<longrightarrow> p0 \<le> i \<and> isspace (buf ! i) \<and> ?buf ! i = NUL)"
    proof (intro conjI allI impI)
      show "length ?buf = length buf" by simp
    next
      fix i assume i: "i < length buf" and d: "?buf ! i \<noteq> buf ! i"
      then have iq: "i = ?q" by (cases "i = ?q") auto
      then have "?buf ! i = NUL" using i by simp
      moreover have "buf ! i \<noteq> NUL" using d iq i by simp
      then have "isspace (buf ! i)" using stop iq i by (simp add: peek_def)
      ultimately show "p0 \<le> i" "isspace (buf ! i)" "?buf ! i = NUL" using p0q iq by simp_all
    qed
    have nulq: "peek ?buf ?q = NUL" by (simp add: peek_def)
    obtain err st1 where push: "push_to_argv al bl (cstr ?buf ?p) st = (err, st1)"
      by (cases "push_to_argv al bl (cstr ?buf ?p) st") auto
    have ends: "token_ends buf p0 =
        ?q # (if peek buf ?q = NUL then [] else token_ends buf (?q + 1))"
      using False by (subst token_ends.simps) (simp add: Let_def)
    show ?thesis
    proof (cases "err \<noteq> kSuccess \<or> peek buf ?q = NUL")
      case True
      have r: "buf' = ?buf \<and> fst r = argc st1"
        using "1.prems" False push True
        by (subst (asm) arg_loop.simps) (auto simp: Let_def split: if_splits)
      have "\<forall>j<length (token_ends buf p0). j \<le> fst r - argc st \<longrightarrow>
         peek buf' (token_ends buf p0 ! j) = NUL"
      proof (intro allI impI)
        fix j assume j: "j < length (token_ends buf p0)" and le: "j \<le> fst r - argc st"
        have "j = 0"
        proof (cases "peek buf ?q = NUL")
          case True
          then show ?thesis using j ends by simp
        next
          case False
          then have "err \<noteq> kSuccess" using True by simp
          then have "argc st1 = argc st" using push_argc [OF push] by simp
          then show ?thesis using le r by simp
        qed
        then show "peek buf' (token_ends buf p0 ! j) = NUL" using ends r nulq by simp
      qed
      then show ?thesis using one r by simp
    next
      case cont: False
      then have ok: "err = kSuccess" and nend: "peek buf ?q \<noteq> NUL" by simp_all
      have ql: "?q < length buf" using nend by (auto simp: peek_def split: if_splits)
      have rec: "arg_loop al bl ?buf (?q + 1) st1 = (r, buf', st')"
        using "1.prems" False push ok nend
        by (subst (asm) arg_loop.simps) (auto simp: Let_def)
      have ih: "length buf' = length ?buf \<and>
           (\<forall>i<length ?buf. buf' ! i \<noteq> ?buf ! i \<longrightarrow>
               ?q + 1 \<le> i \<and> isspace (?buf ! i) \<and> buf' ! i = NUL) \<and>
           (\<forall>j<length (token_ends ?buf (?q + 1)). j \<le> fst r - argc st1 \<longrightarrow>
               peek buf' (token_ends ?buf (?q + 1) ! j) = NUL)"
        using "1.IH" [OF refl False refl refl refl refl push [symmetric] refl _ nend rec] ok
        by simp
      have te: "token_ends ?buf (?q + 1) = token_ends buf (?q + 1)"
        by (rule token_ends_update) simp
      have c1: "argc st1 = argc st + 1" using push_argc [OF push] ok by simp
      have len: "length buf' = length buf" using ih by simp
      have keepq: "buf' ! ?q = NUL"
      proof (rule ccontr)
        assume "buf' ! ?q \<noteq> NUL"
        then have "buf' ! ?q \<noteq> ?buf ! ?q" using ql by simp
        then have "?q + 1 \<le> ?q" using ih ql by auto
        then show False by simp
      qed
      have frame: "\<forall>i<length buf. buf' ! i \<noteq> buf ! i \<longrightarrow>
          p0 \<le> i \<and> isspace (buf ! i) \<and> buf' ! i = NUL"
      proof (intro allI impI)
        fix i assume i: "i < length buf" and d: "buf' ! i \<noteq> buf ! i"
        show "p0 \<le> i \<and> isspace (buf ! i) \<and> buf' ! i = NUL"
        proof (cases "i = ?q")
          case True
          then have "buf ! i \<noteq> NUL" using d keepq by simp
          then have "isspace (buf ! i)" using stop True i by (simp add: peek_def)
          then show ?thesis using True keepq p0q by simp
        next
          case False
          then have same: "?buf ! i = buf ! i" by simp
          then have "buf' ! i \<noteq> ?buf ! i" using d by simp
          then have "?q + 1 \<le> i \<and> isspace (?buf ! i) \<and> buf' ! i = NUL"
            using ih i by simp
          then show ?thesis using same p0q by simp
        qed
      qed
      have nuls: "\<forall>j<length (token_ends buf p0). j \<le> fst r - argc st \<longrightarrow>
         peek buf' (token_ends buf p0 ! j) = NUL"
      proof (intro allI impI)
        fix j assume j: "j < length (token_ends buf p0)" and le: "j \<le> fst r - argc st"
        show "peek buf' (token_ends buf p0 ! j) = NUL"
        proof (cases j)
          case 0
          then show ?thesis using ends keepq ql len by (simp add: peek_def)
        next
          case (Suc j')
          then have "j' < length (token_ends ?buf (?q + 1))" "j' \<le> fst r - argc st1"
            using j le ends nend te c1 by auto
          then have "peek buf' (token_ends ?buf (?q + 1) ! j') = NUL" using ih by simp
          then show ?thesis using Suc ends nend te by simp
        qed
      qed
      show ?thesis using len frame nuls by simp
    qed
  qed
qed

lemma push_all_argv_bound:
  "(\<forall>i<argc st. int (argv st i) < bl) \<Longrightarrow> push_all al bl ss st = (e, st') \<Longrightarrow>
     (\<forall>i<argc st'. int (argv st' i) < bl) \<and> argc st \<le> argc st'"
proof (induction ss arbitrary: st)
  case Nil
  then show ?case by simp
next
  case (Cons s ss)
  obtain e1 st1 where push: "push_to_argv al bl s st = (e1, st1)"
    by (cases "push_to_argv al bl s st") auto
  show ?case
  proof (cases "e1 = kSuccess")
    case False
    then have "st' = st" using push_fail [OF push] Cons.prems(2) push by auto
    then show ?thesis using Cons.prems(1) by simp
  next
    case True
    have b: "\<forall>i<argc st1. int (argv st1 i) < bl"
      using push True Cons.prems(1) by (auto simp: push_to_argv_def split: if_splits)
    have "push_all al bl ss st1 = (e, st')" using Cons.prems(2) push True by simp
    from Cons.IH [OF b this] show ?thesis using push_argc [OF push] True by simp
  qed
qed

text \<open>
  C9: \<^verbatim>\<open>MakeArgVector\<close> writes into the caller's \<^verbatim>\<open>first_arg\<close> buffer. With room for
  the command (\<^verbatim>\<open>argv_len\<close> and \<^verbatim>\<open>argbuf_len\<close> positive, as in \<^verbatim>\<open>ExecuteFile\<close>), the
  buffer keeps its length, every byte that changes was whitespace and becomes NUL, the
  byte after each token that was scanned is NUL afterwards, and the buffer differs from
  its contents before the call whenever a token was followed by whitespace. The returned
  count \<open>n\<close> is the number of strings stored, at least 1 (the command), all of them on
  success and fewer on \<open>kFull\<close>; and for every \<open>i < n\<close>, \<^verbatim>\<open>argv[i]\<close> is an offset
  below \<^verbatim>\<open>argbuf_len\<close> into \<^verbatim>\<open>argbuf\<close>, the sum of the lengths of the strings
  before it, where the copy of the \<open>i\<close>-th string (the command, then the tokens of the
  buffer as it was before the call) lies with its NUL: the pointers go into the copy in
  \<^verbatim>\<open>argbuf\<close>, not into \<^verbatim>\<open>first_arg\<close>.
\<close>

theorem MakeArgVector_first_arg:
  assumes run: "MakeArgVector command (Some buf) argv0 argv_len argbuf0 argbuf_len =
                  ((n, err), first_arg', st')"
    and al: "0 < argv_len" and bl: "0 < argbuf_len"
  shows "\<exists>buf'. first_arg' = Some buf' \<and> length buf' = length buf \<and>
           (\<forall>i<length buf. buf' ! i \<noteq> buf ! i \<longrightarrow> isspace (buf ! i) \<and> buf' ! i = NUL) \<and>
           (\<forall>j<length (token_ends buf 0). j < n \<longrightarrow> peek buf' (token_ends buf 0 ! j) = NUL) \<and>
           ((\<exists>j<length (token_ends buf 0). isspace (peek buf (token_ends buf 0 ! j)))
              \<longrightarrow> buf' \<noteq> buf) \<and>
           (\<forall>i<n. int (argv st' i) < argbuf_len) \<and>
           n = argc st' \<and> 1 \<le> n \<and> n \<le> length (all_args command (Some buf)) \<and>
           (err = kSuccess \<longrightarrow> n = length (all_args command (Some buf))) \<and>
           (err \<noteq> kSuccess \<longrightarrow> err = kFull \<and> n < length (all_args command (Some buf))) \<and>
           (\<forall>i<n. argv st' i = offs (take i (all_args command (Some buf))) \<and>
                   holds (argbuf st') (argv st' i) (all_args command (Some buf) ! i))"
proof -
  let ?st0 = "\<lparr> argc = 0, argbuf_index = 0, argv = argv0, argbuf = argbuf0 \<rparr>"
  let ?args = "all_args command (Some buf)"
  obtain e st1 where push: "push_to_argv argv_len argbuf_len (cstr command 0) ?st0 = (e, st1)"
    by (cases "push_to_argv argv_len argbuf_len (cstr command 0) ?st0") auto
  have e: "e = kSuccess" using push al bl by (auto simp: push_to_argv_def)
  have c1: "argc st1 = 1" using push_argc [OF push] e by simp
  obtain r1 b1 s1 where loop: "arg_loop argv_len argbuf_len buf 0 st1 = (r1, b1, s1)"
    by (cases "arg_loop argv_len argbuf_len buf 0 st1") auto
  have res: "(n, err) = r1" "first_arg' = Some b1" "st' = s1"
    using run push e loop by (auto simp: MakeArgVector_def Let_def)
  have fr: "length b1 = length buf"
    "\<forall>i<length buf. b1 ! i \<noteq> buf ! i \<longrightarrow> 0 \<le> i \<and> isspace (buf ! i) \<and> b1 ! i = NUL"
    "\<forall>j<length (token_ends buf 0). j \<le> fst r1 - argc st1 \<longrightarrow>
         peek b1 (token_ends buf 0 ! j) = NUL"
    using arg_loop_frame [OF loop] by blast+
  have pa: "push_all argv_len argbuf_len (all_args command (Some buf)) ?st0 = (err, st')"
    and n: "n = argc st'"
    using MakeArgVector_push_all [OF run] by simp_all
  have bound: "(\<forall>i<argc st'. int (argv st' i) < argbuf_len) \<and> argc ?st0 \<le> argc st'"
    by (rule push_all_argv_bound [OF _ pa]) simp
  have rest: "push_all argv_len argbuf_len (tokens buf 0) st1 = (err, st')"
    using pa push e by (simp add: all_args_def)
  have b1: "\<forall>i<argc st1. int (argv st1 i) < argbuf_len"
    using push e bl by (auto simp: push_to_argv_def split: if_splits)
  have n1: "1 \<le> n"
    using push_all_argv_bound [OF b1 rest] c1 n by simp
  have nuls: "\<forall>j<length (token_ends buf 0). j < n \<longrightarrow> peek b1 (token_ends buf 0 ! j) = NUL"
  proof (intro allI impI)
    fix j assume j: "j < length (token_ends buf 0)" and "j < n"
    then have "j \<le> fst r1 - argc st1" using res(1) c1 by auto
    then show "peek b1 (token_ends buf 0 ! j) = NUL" using fr(3) j by simp
  qed
  have changed: "b1 \<noteq> buf"
    if ex: "\<exists>j<length (token_ends buf 0). isspace (peek buf (token_ends buf 0 ! j))"
  proof
    assume same: "b1 = buf"
    from ex obtain j where j: "j < length (token_ends buf 0)"
      "isspace (peek buf (token_ends buf 0 ! j))" by blast
    have sp: "isspace (peek buf (hd (token_ends buf 0)))"
      by (rule token_ends_first [OF j])
    have ne: "token_ends buf 0 \<noteq> []" using j by auto
    then have "peek b1 (token_ends buf 0 ! 0) = NUL" using nuls n1 by simp
    then have "peek buf (hd (token_ends buf 0)) = NUL" using same ne by (simp add: hd_conv_nth)
    then show False using sp by (simp add: isspace_def NUL_def)
  qed
  from push_all_stored [OF stored_init pa] obtain k where k: "k \<le> length ?args"
    "stored st' ([] @ take k ?args)" "err = kSuccess \<longrightarrow> k = length ?args"
    "err \<noteq> kSuccess \<longrightarrow> err = kFull \<and> k < length ?args \<and>
       (argv_len \<le> int (argc st') \<or> argbuf_len \<le> int (argbuf_index st'))"
    by blast
  have nk: "n = k" using k(1,2) n by (simp add: stored_def)
  have copies: "\<forall>i<n. argv st' i = offs (take i ?args) \<and>
                   holds (argbuf st') (argv st' i) (?args ! i)"
  proof (intro allI impI)
    fix i assume i: "i < n"
    then have ik: "i < length (take k ?args)" using nk k(1) by simp
    have "argv st' i = offs (take i (take k ?args)) \<and>
          holds (argbuf st') (argv st' i) (take k ?args ! i)"
      using k(2) ik unfolding stored_def append_Nil by blast
    moreover have "take i (take k ?args) = take i ?args" using i nk by (simp add: min_def)
    moreover have "take k ?args ! i = ?args ! i" using i nk by simp
    ultimately show "argv st' i = offs (take i ?args) \<and>
                   holds (argbuf st') (argv st' i) (?args ! i)" by metis
  qed
  have count: "n = argc st' \<and> 1 \<le> n \<and> n \<le> length ?args \<and>
           (err = kSuccess \<longrightarrow> n = length ?args) \<and>
           (err \<noteq> kSuccess \<longrightarrow> err = kFull \<and> n < length ?args)"
    using n n1 nk k by auto
  have first: "first_arg' = Some b1 \<and> length b1 = length buf \<and>
           (\<forall>i<length buf. b1 ! i \<noteq> buf ! i \<longrightarrow> isspace (buf ! i) \<and> b1 ! i = NUL) \<and>
           (\<forall>j<length (token_ends buf 0). j < n \<longrightarrow> peek b1 (token_ends buf 0 ! j) = NUL) \<and>
           ((\<exists>j<length (token_ends buf 0). isspace (peek buf (token_ends buf 0 ! j)))
              \<longrightarrow> b1 \<noteq> buf) \<and>
           (\<forall>i<n. int (argv st' i) < argbuf_len)"
    using res(2) fr(1,2) nuls changed bound n by auto
  show ?thesis
    using first count copies by blast
qed

theorem MakeArgVector_first_arg_witness:
  "(0::int) < 32 \<and> (0::int) < 3840 \<and> token_ends ''foo bar'' 0 = [3, 7] \<and>
   isspace (peek ''foo bar'' 3) \<and>
   all_args ''cat'' (Some ''foo bar'') = [''cat'', ''foo'', ''bar''] \<and>
   fst (snd (MakeArgVector ''cat'' (Some ''foo bar'') (\<lambda>_. 0) 32 (\<lambda>_. NUL) 3840))
     \<noteq> Some ''foo bar'' \<and>
   fst (MakeArgVector ''cat'' (Some ''foo bar'') (\<lambda>_. 0) 32 (\<lambda>_. NUL) 3840)
     = (3, kSuccess) \<and>
   argv (snd (snd (MakeArgVector ''cat'' (Some ''foo bar'') (\<lambda>_. 0) 32 (\<lambda>_. NUL) 3840))) 1
     = 4 \<and>
   holds (argbuf (snd (snd (MakeArgVector ''cat'' (Some ''foo bar'') (\<lambda>_. 0) 32 (\<lambda>_. NUL)
                              3840)))) 4 ''foo'' \<and>
   argv (snd (snd (MakeArgVector ''cat'' (Some ''foo bar'') (\<lambda>_. 0) 32 (\<lambda>_. NUL) 3840))) 2
     = 8 \<and>
   holds (argbuf (snd (snd (MakeArgVector ''cat'' (Some ''foo bar'') (\<lambda>_. 0) 32 (\<lambda>_. NUL)
                              3840)))) 8 ''bar''"
proof -
  let ?R = "MakeArgVector ''cat'' (Some ''foo bar'') (\<lambda>_. 0) 32 (\<lambda>_. NUL) 3840"
  let ?args = "all_args ''cat'' (Some ''foo bar'')"
  have run: "?R = ((fst (fst ?R), snd (fst ?R)), fst (snd ?R), snd (snd ?R))" by simp
  have ends: "token_ends ''foo bar'' 0 = [3, 7]" by code_simp
  have sp: "isspace (peek ''foo bar'' 3)" by code_simp
  have args: "?args = [''cat'', ''foo'', ''bar'']" by code_simp
  have ok: "snd (fst ?R) = kSuccess" by code_simp
  have ex: "\<exists>j<length (token_ends ''foo bar'' 0).
              isspace (peek ''foo bar'' (token_ends ''foo bar'' 0 ! j))"
    using ends sp by (intro exI [of _ 0]) simp
  have al: "(0::int) < 32" and bl: "(0::int) < 3840" by simp_all
  from MakeArgVector_first_arg [OF run al bl]
  obtain buf' where b: "fst (snd ?R) = Some buf'"
    and ch: "(\<exists>j<length (token_ends ''foo bar'' 0).
               isspace (peek ''foo bar'' (token_ends ''foo bar'' 0 ! j))) \<longrightarrow> buf' \<noteq> ''foo bar''"
    and cnt: "snd (fst ?R) = kSuccess \<longrightarrow> fst (fst ?R) = length ?args"
    and cp: "\<forall>i<fst (fst ?R). argv (snd (snd ?R)) i = offs (take i ?args) \<and>
               holds (argbuf (snd (snd ?R))) (argv (snd (snd ?R)) i) (?args ! i)"
    by blast
  have n: "fst (fst ?R) = 3" using cnt ok args by simp
  have r: "fst ?R = (3, kSuccess)" using n ok by (simp add: prod_eq_iff)
  have o1: "offs (take 1 ?args) = 4" and o2: "offs (take 2 ?args) = 8"
    unfolding args by (simp_all add: offs_def)
  have a1: "argv (snd (snd ?R)) 1 = 4 \<and> holds (argbuf (snd (snd ?R))) 4 ''foo''"
  proof -
    have "(1::nat) < fst (fst ?R)" using n by simp
    then have "argv (snd (snd ?R)) 1 = offs (take 1 ?args) \<and>
               holds (argbuf (snd (snd ?R))) (argv (snd (snd ?R)) 1) (?args ! 1)"
      using cp by blast
    moreover have "?args ! 1 = ''foo''" unfolding args by simp
    ultimately show ?thesis unfolding o1 by metis
  qed
  have a2: "argv (snd (snd ?R)) 2 = 8 \<and> holds (argbuf (snd (snd ?R))) 8 ''bar''"
  proof -
    have "(2::nat) < fst (fst ?R)" using n by simp
    then have "argv (snd (snd ?R)) 2 = offs (take 2 ?args) \<and>
               holds (argbuf (snd (snd ?R))) (argv (snd (snd ?R)) 2) (?args ! 2)"
      using cp by blast
    moreover have "?args ! 2 = ''bar''" unfolding args by simp
    ultimately show ?thesis unfolding o2 by metis
  qed
  have "buf' \<noteq> ''foo bar''" using ch ex by blast
  then show ?thesis using b ends sp args r a1 a2 by simp
qed

section \<open>Messages and the terminal's standard input\<close>

text \<open>
  \<^verbatim>\<open>message.hpp\<close> is not among the sources. \<^verbatim>\<open>terminal.cpp\<close> uses the message types
  \<^verbatim>\<open>kTimerTimeout\<close>, \<^verbatim>\<open>kKeyPush\<close> and \<^verbatim>\<open>kWindowActive\<close>, builds layer messages, and reads
  \<^verbatim>\<open>arg.timer.timeout\<close>, \<^verbatim>\<open>arg.keyboard.{modifier, keycode, ascii, press}\<close> and
  \<^verbatim>\<open>arg.window_active.activate\<close>; the tagged union has these members.
\<close>

datatype Message =
    TimerTimeout (timeout: nat)
  | is_KeyPush: KeyPush (modifier: u8) (keycode: u8) (ascii: char) (press: bool)
  | Layer
  | WindowActive (activate: bool)

text \<open>\<^verbatim>\<open>toupper\<close> of the C locale.\<close>

definition toupper :: "char \<Rightarrow> char" where
  "toupper c = (if 97 \<le> (of_char c :: nat) \<and> (of_char c :: nat) \<le> 122
                then char_of (of_char c - (32 :: nat)) else c)"

text \<open>
  What one call of \<^verbatim>\<open>TerminalFileDescriptor::Read\<close> leaves behind: the returned
  \<^verbatim>\<open>size_t\<close>, the byte stored into \<^verbatim>\<open>buf[0]\<close> (if any), the strings handed to
  \<^verbatim>\<open>Terminal::Print\<close> in order, and the messages not yet received.
\<close>

record read_result =
  ret :: nat
  stored_byte :: "char option"
  printed :: "string list"
  remaining :: "Message list"

text \<open>
  The \<^verbatim>\<open>while (true)\<close> loop of \<^verbatim>\<open>Read\<close>. The list is the task's mailbox followed by
  the messages that arrive later: \<^verbatim>\<open>ReceiveMessage\<close> takes the oldest one, and with an
  empty mailbox the task sleeps until the next message arrives. When no message arrives
  any more the task sleeps forever and the call never returns: \<open>None\<close>.
  \<open>lctl\<close> and \<open>rctl\<close> are \<^verbatim>\<open>kLControlBitMask\<close> and \<^verbatim>\<open>kRControlBitMask\<close> of
  \<^verbatim>\<open>keyboard.hpp\<close>, which is not among the sources.
\<close>

fun Read_loop :: "u8 \<Rightarrow> u8 \<Rightarrow> string list \<Rightarrow> Message list \<Rightarrow> read_result option" where
  "Read_loop lctl rctl out [] = None"
| "Read_loop lctl rctl out (msg # msgs) =
     (if \<not> is_KeyPush msg \<or> \<not> press msg then Read_loop lctl rctl out msgs
      else if modifier msg AND (lctl OR rctl) \<noteq> 0 then
        (let s = [CHR ''^'', toupper (ascii msg)]
         in if keycode msg = 7
            then Some \<lparr> ret = 0, stored_byte = None, printed = out @ [s], remaining = msgs \<rparr>
            else Read_loop lctl rctl (out @ [s]) msgs)
      else Some \<lparr> ret = 1, stored_byte = Some (ascii msg),
                  printed = out @ [[ascii msg]], remaining = msgs \<rparr>)"

text \<open>\<^verbatim>\<open>Read(buf, len)\<close>: the body never looks at \<^verbatim>\<open>len\<close>.\<close>

definition Read :: "u8 \<Rightarrow> u8 \<Rightarrow> nat \<Rightarrow> Message list \<Rightarrow> read_result option" where
  "Read lctl rctl len msgs = Read_loop lctl rctl [] msgs"

text \<open>
  The notions the behaviour of \<^verbatim>\<open>Read\<close> is stated with: a key press, a press with a
  Control modifier, a message the loop passes over, and the echo of the Control presses
  among the messages passed over.
\<close>

definition key_press :: "Message \<Rightarrow> bool" where
  "key_press m = (is_KeyPush m \<and> press m)"

definition with_control :: "u8 \<Rightarrow> u8 \<Rightarrow> Message \<Rightarrow> bool" where
  "with_control lctl rctl m = (modifier m AND (lctl OR rctl) \<noteq> 0)"

definition passed_over :: "u8 \<Rightarrow> u8 \<Rightarrow> Message \<Rightarrow> bool" where
  "passed_over lctl rctl m =
     (\<not> key_press m \<or> (with_control lctl rctl m \<and> keycode m \<noteq> 7))"

definition control_echo :: "u8 \<Rightarrow> u8 \<Rightarrow> Message list \<Rightarrow> string list" where
  "control_echo lctl rctl ms =
     map (\<lambda>m. [CHR ''^'', toupper (ascii m)])
         (filter (\<lambda>m. key_press m \<and> with_control lctl rctl m) ms)"


lemma Read_loop_None:
  "Read_loop lctl rctl out msgs = None \<longleftrightarrow> (\<forall>m\<in>set msgs. passed_over lctl rctl m)"
  by (induction msgs arbitrary: out)
     (auto simp: passed_over_def key_press_def with_control_def Let_def)

lemma Read_loop_decide:
  "(\<forall>x\<in>set pre. passed_over lctl rctl x) \<Longrightarrow> \<not> passed_over lctl rctl m \<Longrightarrow>
     Read_loop lctl rctl out (pre @ m # post) =
       Some (if with_control lctl rctl m
             then \<lparr> ret = 0, stored_byte = None,
                    printed = out @ control_echo lctl rctl pre @ [[CHR ''^'', toupper (ascii m)]],
                    remaining = post \<rparr>
             else \<lparr> ret = 1, stored_byte = Some (ascii m),
                    printed = out @ control_echo lctl rctl pre @ [[ascii m]],
                    remaining = post \<rparr>)"
proof (induction pre arbitrary: out)
  case Nil
  then show ?case
    by (auto simp: passed_over_def key_press_def with_control_def control_echo_def Let_def)
next
  case (Cons x pre)
  have x: "passed_over lctl rctl x" using Cons.prems(1) by simp
  have rest: "\<forall>x\<in>set pre. passed_over lctl rctl x" using Cons.prems(1) by simp
  show ?case
  proof (cases "key_press x")
    case False
    then have "Read_loop lctl rctl out ((x # pre) @ m # post) =
               Read_loop lctl rctl out (pre @ m # post)"
      by (auto simp: key_press_def)
    moreover have "control_echo lctl rctl (x # pre) = control_echo lctl rctl pre"
      using False by (simp add: control_echo_def)
    ultimately show ?thesis using Cons.IH [OF rest Cons.prems(2)] by simp
  next
    case True
    then have c: "with_control lctl rctl x" "keycode x \<noteq> 7"
      using x by (auto simp: passed_over_def)
    have "Read_loop lctl rctl out ((x # pre) @ m # post) =
          Read_loop lctl rctl (out @ [[CHR ''^'', toupper (ascii x)]]) (pre @ m # post)"
      using True c by (auto simp: key_press_def with_control_def Let_def)
    moreover have "control_echo lctl rctl (x # pre) =
                   [CHR ''^'', toupper (ascii x)] # control_echo lctl rctl pre"
      using True c by (simp add: control_echo_def)
    ultimately show ?thesis using Cons.IH [OF rest Cons.prems(2)] by simp
  qed
qed

lemma Read_loop_ret: "Read_loop lctl rctl out msgs = Some r \<Longrightarrow> ret r \<le> 1"
  by (induction msgs arbitrary: out) (auto simp: Let_def split: if_splits)

text \<open>
  C10: \<^verbatim>\<open>TerminalFileDescriptor::Read\<close> does not depend on \<^verbatim>\<open>len\<close> and returns at
  most one byte. It does not return as long as every message is passed over, that is, is
  not a key press, or is a key press with a Control modifier and a keycode other than 7
  (each of which is echoed as \<open>^X\<close>). On the first message that is not passed over it
  returns 0, storing nothing, when the press carries a Control modifier (then the keycode
  is 7, Ctrl-D, echoed as well); otherwise it stores the one ASCII byte, echoes it and
  returns 1.
\<close>

theorem Read_one_byte:
  "Read lctl rctl len msgs = Read lctl rctl 0 msgs \<and>
   (Read lctl rctl len msgs = None \<longleftrightarrow> (\<forall>m\<in>set msgs. passed_over lctl rctl m)) \<and>
   (\<forall>r. Read lctl rctl len msgs = Some r \<longrightarrow> ret r \<le> 1) \<and>
   (\<forall>pre m post.
      msgs = pre @ m # post \<and> (\<forall>x\<in>set pre. passed_over lctl rctl x) \<and>
      \<not> passed_over lctl rctl m \<longrightarrow>
        Read lctl rctl len msgs =
          Some (if with_control lctl rctl m
                then \<lparr> ret = 0, stored_byte = None,
                       printed = control_echo lctl rctl pre @ [[CHR ''^'', toupper (ascii m)]],
                       remaining = post \<rparr>
                else \<lparr> ret = 1, stored_byte = Some (ascii m),
                       printed = control_echo lctl rctl pre @ [[ascii m]],
                       remaining = post \<rparr>))"
  using Read_loop_decide [of _ lctl rctl _ "[]"]
  by (auto simp: Read_def Read_loop_None dest: Read_loop_ret)

theorem Read_one_byte_witness:
  "passed_over 1 16 (TimerTimeout 3) \<and> passed_over 1 16 (KeyPush 1 6 (CHR ''c'') True) \<and>
   \<not> passed_over 1 16 (KeyPush 0 4 (CHR ''a'') True) \<and>
   Read 1 16 100 [TimerTimeout 3, KeyPush 1 6 (CHR ''c'') True, KeyPush 0 4 (CHR ''a'') True, Layer]
     = Some \<lparr> ret = 1, stored_byte = Some (CHR ''a''), printed = [''^C'', ''a''],
              remaining = [Layer] \<rparr>"
proof -
  let ?pre = "[TimerTimeout 3, KeyPush 1 6 (CHR ''c'') True]"
  let ?m = "KeyPush 0 4 (CHR ''a'') True"
  have a: "\<forall>x\<in>set ?pre. passed_over 1 16 x"
    by (simp add: passed_over_def key_press_def with_control_def)
  have b: "\<not> passed_over 1 16 ?m"
    by (simp add: passed_over_def key_press_def with_control_def)
  have "Read 1 16 100 (?pre @ ?m # [Layer]) =
          Some (if with_control 1 16 ?m
                then \<lparr> ret = 0, stored_byte = None,
                       printed = control_echo 1 16 ?pre @ [[CHR ''^'', toupper (ascii ?m)]],
                       remaining = [Layer] \<rparr>
                else \<lparr> ret = 1, stored_byte = Some (ascii ?m),
                       printed = control_echo 1 16 ?pre @ [[ascii ?m]],
                       remaining = [Layer] \<rparr>)"
    using Read_one_byte [of 1 16 100 "?pre @ ?m # [Layer]"] a b by blast
  moreover have up: "toupper (CHR ''c'') = CHR ''C''" by code_simp
  ultimately have "Read 1 16 100 (?pre @ ?m # [Layer]) =
      Some \<lparr> ret = 1, stored_byte = Some (CHR ''a''), printed = [''^C'', ''a''],
              remaining = [Layer] \<rparr>"
    by (simp add: with_control_def control_echo_def key_press_def)
  then show ?thesis using a b by simp
qed

section \<open>Tasks and the task manager\<close>

text \<open>
  \<^verbatim>\<open>task.hpp\<close> declares \<^verbatim>\<open>Task\<close> and \<^verbatim>\<open>TaskManager\<close>; the file that defines their member
  functions is not among the sources. A task is kept with its identifier and its
  mailbox \<^verbatim>\<open>msgs_\<close> (a \<^verbatim>\<open>std::deque<Message>\<close>); the saved context and the stack play no
  part in the queue operations.
\<close>

record Task =
  task_id :: u64
  msgs :: "Message list"

text \<open>
  \<^verbatim>\<open>tasks_\<close> owns the tasks and never shrinks, so a \<^verbatim>\<open>Task*\<close> is the position of the task
  in \<^verbatim>\<open>tasks_\<close>; \<^verbatim>\<open>running_\<close> is the queue of such pointers, the front being the task
  that executes.
\<close>

record TaskManager =
  tasks :: "Task list"
  latest_id :: u64
  running :: "nat list"

text \<open>The first position in \<^verbatim>\<open>tasks_\<close> whose task has identifier \<open>i\<close>.\<close>

fun find_task :: "Task list \<Rightarrow> u64 \<Rightarrow> nat option" where
  "find_task [] i = None"
| "find_task (t # ts) i = (if task_id t = i then Some 0 else map_option Suc (find_task ts i))"

text \<open>
  Modelled from the spec: \<^verbatim>\<open>TaskManager::NewTask\<close>, whose definition is missing. It
  ``allocates a fresh Task with the next id [...]; does not enqueue it''; identifiers are
  ``monotonically increasing'', counted in \<^verbatim>\<open>latest_id_\<close>, a \<^verbatim>\<open>uint64_t\<close> that starts at 0.
\<close>

definition NewTask :: "TaskManager \<Rightarrow> nat \<times> TaskManager" where
  "NewTask tm =
     (length (tasks tm),
      tm\<lparr> latest_id := latest_id tm + 1,
          tasks := tasks tm @ [\<lparr> task_id = latest_id tm + 1, msgs = [] \<rparr>] \<rparr>)"

text \<open>
  Modelled from the spec: \<^verbatim>\<open>TaskManager::SwitchTask\<close>, whose definition is missing.
  ``Pop the front of the run queue; if \<open>current_should_sleep\<close> is false, push it to the
  back, else leave it out; then the new front becomes current.'' An empty queue before or
  after the step is the fatal condition of the spec (\<open>None\<close>).
\<close>

definition SwitchTask :: "bool \<Rightarrow> TaskManager \<Rightarrow> TaskManager option" where
  "SwitchTask current_sleep tm =
     (case running tm of
        [] \<Rightarrow> None
      | t # ts \<Rightarrow>
          (let q = (if current_sleep then ts else ts @ [t])
           in if q = [] then None else Some (tm\<lparr> running := q \<rparr>)))"

text \<open>
  Modelled from the spec: \<^verbatim>\<open>TaskManager::Sleep(Task*)\<close>, whose definition is missing.
  ``If task is in the run queue, remove it''; when it was the front, the dispatch to the
  new front follows at once, and the new front is the head of the queue that remains.
\<close>

definition Sleep :: "nat \<Rightarrow> TaskManager \<Rightarrow> TaskManager" where
  "Sleep t tm = tm\<lparr> running := remove1 t (running tm) \<rparr>"

text \<open>
  Modelled from the spec: \<^verbatim>\<open>TaskManager::Wakeup(Task*)\<close>, whose definition is missing.
  ``If task is not already in the run queue, append it to the back; waking an
  already-runnable task is a no-op.''
\<close>

definition Wakeup :: "nat \<Rightarrow> TaskManager \<Rightarrow> TaskManager" where
  "Wakeup t tm = (if t \<in> set (running tm) then tm else tm\<lparr> running := running tm @ [t] \<rparr>)"

text \<open>
  Modelled from the spec: the overloads by identifier, whose definitions are missing. They
  ``fail with NotFound if no task has that id''.
\<close>

definition Sleep_id :: "u64 \<Rightarrow> TaskManager \<Rightarrow> Error \<times> TaskManager" where
  "Sleep_id i tm =
     (case find_task (tasks tm) i of
        None \<Rightarrow> (kNotFound, tm)
      | Some t \<Rightarrow> (kSuccess, Sleep t tm))"

definition Wakeup_id :: "u64 \<Rightarrow> TaskManager \<Rightarrow> Error \<times> TaskManager" where
  "Wakeup_id i tm =
     (case find_task (tasks tm) i of
        None \<Rightarrow> (kNotFound, tm)
      | Some t \<Rightarrow> (kSuccess, Wakeup t tm))"

text \<open>
  Modelled from the spec: \<^verbatim>\<open>TaskManager::SendMessage\<close>, whose definition is missing. It
  ``looks up the task by id, fails with NotFound if absent, otherwise appends msg to its
  mailbox in FIFO order''; ``a sleeping recipient must be made runnable as part of this
  call''.
\<close>

definition SendMessage :: "u64 \<Rightarrow> Message \<Rightarrow> TaskManager \<Rightarrow> Error \<times> TaskManager" where
  "SendMessage i msg tm =
     (case find_task (tasks tm) i of
        None \<Rightarrow> (kNotFound, tm)
      | Some t \<Rightarrow>
          (kSuccess,
           Wakeup t (tm\<lparr> tasks := (tasks tm)[t := (tasks tm ! t)\<lparr> msgs := msgs (tasks tm ! t) @ [msg] \<rparr>] \<rparr>)))"

text \<open>
  Modelled from the spec: \<^verbatim>\<open>Task::ReceiveMessage\<close>, whose definition is missing. It ``pops
  and returns the oldest mailbox entry, or signals empty''.
\<close>

definition ReceiveMessage :: "Task \<Rightarrow> Message option \<times> Task" where
  "ReceiveMessage t =
     (case msgs t of [] \<Rightarrow> (None, t) | m # ms \<Rightarrow> (Some m, t\<lparr> msgs := ms \<rparr>))"

text \<open>
  Modelled from the spec: the manager after initialisation, with one task that is
  runnable (``at least one idle/background task always present''). The constructor's
  definition is missing.
\<close>

definition InitializeTask :: TaskManager where
  "InitializeTask =
     (let (t, tm) = NewTask \<lparr> tasks = [], latest_id = 0, running = [] \<rparr>
      in tm\<lparr> running := [t] \<rparr>)"

text \<open>The calls a client can make, and sequences of them.\<close>

datatype task_op =
    OpNewTask
  | OpSleep nat
  | OpSleepId u64
  | OpWakeup nat
  | OpWakeupId u64
  | OpSendMessage u64 Message
  | OpSwitchTask bool

fun step :: "TaskManager \<Rightarrow> task_op \<Rightarrow> TaskManager option" where
  "step tm OpNewTask = Some (snd (NewTask tm))"
| "step tm (OpSleep t) = Some (Sleep t tm)"
| "step tm (OpSleepId i) = Some (snd (Sleep_id i tm))"
| "step tm (OpWakeup t) = Some (Wakeup t tm)"
| "step tm (OpWakeupId i) = Some (snd (Wakeup_id i tm))"
| "step tm (OpSendMessage i msg) = Some (snd (SendMessage i msg tm))"
| "step tm (OpSwitchTask current_sleep) = SwitchTask current_sleep tm"

fun run :: "TaskManager \<Rightarrow> task_op list \<Rightarrow> TaskManager option" where
  "run tm [] = Some tm"
| "run tm (x # xs) = (case step tm x of None \<Rightarrow> None | Some tm' \<Rightarrow> run tm' xs)"

text \<open>
  A call keeps the idle task runnable when it passes pointers to tasks the manager owns and does
  not put the idle task to sleep.
\<close>

fun keeps_idle :: "nat \<Rightarrow> TaskManager \<Rightarrow> task_op \<Rightarrow> bool" where
  "keeps_idle idle tm OpNewTask = True"
| "keeps_idle idle tm (OpSleep t) = (t \<noteq> idle)"
| "keeps_idle idle tm (OpSleepId i) = (find_task (tasks tm) i \<noteq> Some idle)"
| "keeps_idle idle tm (OpWakeup t) = (t < length (tasks tm))"
| "keeps_idle idle tm (OpWakeupId i) = True"
| "keeps_idle idle tm (OpSendMessage i msg) = True"
| "keeps_idle idle tm (OpSwitchTask current_sleep) =
     (current_sleep \<longrightarrow> running tm \<noteq> [] \<and> hd (running tm) \<noteq> idle)"

fun keeps_idle_all :: "nat \<Rightarrow> TaskManager \<Rightarrow> task_op list \<Rightarrow> bool" where
  "keeps_idle_all idle tm [] = True"
| "keeps_idle_all idle tm (x # xs) =
     (keeps_idle idle tm x \<and>
      (case step tm x of None \<Rightarrow> True | Some tm' \<Rightarrow> keeps_idle_all idle tm' xs))"

definition queue_ok :: "nat \<Rightarrow> TaskManager \<Rightarrow> bool" where
  "queue_ok idle tm =
     (distinct (running tm) \<and> (\<forall>t\<in>set (running tm). t < length (tasks tm)) \<and>
      idle \<in> set (running tm))"

lemma find_task_Some: "find_task ts i = Some k \<Longrightarrow> k < length ts \<and> task_id (ts ! k) = i"
  by (induction ts arbitrary: k) (auto split: if_splits)

lemma find_task_None: "find_task ts i = None \<longleftrightarrow> (\<forall>t\<in>set ts. task_id t \<noteq> i)"
  by (induction ts) auto

lemma queue_ok_Wakeup: "queue_ok idle tm \<Longrightarrow> t < length (tasks tm) \<Longrightarrow> queue_ok idle (Wakeup t tm)"
  by (auto simp: queue_ok_def Wakeup_def)

lemma queue_ok_Sleep: "queue_ok idle tm \<Longrightarrow> t \<noteq> idle \<Longrightarrow> queue_ok idle (Sleep t tm)"
  by (auto simp: queue_ok_def Sleep_def)

lemma queue_ok_step:
  assumes ok: "queue_ok idle tm" and r: "keeps_idle idle tm x"
  shows "\<exists>tm'. step tm x = Some tm' \<and> queue_ok idle tm'"
proof (cases x)
  case OpNewTask
  then show ?thesis using ok by (auto simp: NewTask_def queue_ok_def)
next
  case (OpSleep t)
  then show ?thesis using ok r by (simp add: queue_ok_Sleep)
next
  case (OpSleepId i)
  then show ?thesis using ok r
    by (auto simp: Sleep_id_def queue_ok_Sleep split: option.splits)
next
  case (OpWakeup t)
  then show ?thesis using ok r by (simp add: queue_ok_Wakeup)
next
  case (OpWakeupId i)
  then show ?thesis using ok
    by (auto simp: Wakeup_id_def queue_ok_Wakeup split: option.splits dest: find_task_Some)
next
  case (OpSendMessage i msg)
  show ?thesis
  proof (cases "find_task (tasks tm) i")
    case None
    then show ?thesis using ok OpSendMessage by (simp add: SendMessage_def)
  next
    case (Some t)
    let ?tm = "tm\<lparr> tasks := (tasks tm)[t := (tasks tm ! t)\<lparr> msgs := msgs (tasks tm ! t) @ [msg] \<rparr>] \<rparr>"
    have "queue_ok idle ?tm" using ok by (simp add: queue_ok_def)
    moreover have "t < length (tasks ?tm)" using find_task_Some [OF Some] by simp
    ultimately have "queue_ok idle (Wakeup t ?tm)" by (rule queue_ok_Wakeup)
    then show ?thesis using Some OpSendMessage by (simp add: SendMessage_def)
  qed
next
  case (OpSwitchTask current_sleep)
  obtain t ts where q: "running tm = t # ts"
    using ok by (cases "running tm") (auto simp: queue_ok_def)
  show ?thesis
  proof (cases current_sleep)
    case True
    then have "t \<noteq> idle" using r OpSwitchTask q by simp
    then have "idle \<in> set ts" using ok q by (auto simp: queue_ok_def)
    then have "ts \<noteq> []" by auto
    then show ?thesis
      using ok q True OpSwitchTask \<open>idle \<in> set ts\<close>
      by (auto simp: SwitchTask_def queue_ok_def)
  next
    case False
    then show ?thesis
      using ok q OpSwitchTask by (auto simp: SwitchTask_def queue_ok_def)
  qed
qed

lemma queue_ok_run:
  "queue_ok idle tm \<Longrightarrow> keeps_idle_all idle tm xs \<Longrightarrow>
     \<exists>tm'. run tm xs = Some tm' \<and> queue_ok idle tm'"
proof (induction xs arbitrary: tm)
  case Nil
  then show ?case by simp
next
  case (Cons x xs)
  then obtain tm1 where s: "step tm x = Some tm1" "queue_ok idle tm1"
    using queue_ok_step [of idle tm x] by auto
  then have "keeps_idle_all idle tm1 xs" using Cons.prems(2) by simp
  from Cons.IH [OF s(2) this] show ?case using s(1) by simp
qed

lemma keeps_idle_all_take: "keeps_idle_all idle tm xs \<Longrightarrow> keeps_idle_all idle tm (take k xs)"
proof (induction xs arbitrary: tm k)
  case Nil
  then show ?case by simp
next
  case (Cons x xs)
  show ?case
  proof (cases k)
    case 0
    then show ?thesis by simp
  next
    case (Suc j)
    then show ?thesis using Cons by (auto split: option.splits)
  qed
qed

lemma queue_ok_init: "queue_ok 0 InitializeTask"
  by (simp add: InitializeTask_def NewTask_def queue_ok_def)

text \<open>
  C7: from a state in which the run queue has no duplicates, holds only tasks the manager
  owns and contains the idle task (as after initialisation), every sequence of
  \<^verbatim>\<open>NewTask\<close>, \<^verbatim>\<open>Sleep\<close>, \<^verbatim>\<open>Wakeup\<close>, \<^verbatim>\<open>SendMessage\<close> and \<^verbatim>\<open>SwitchTask\<close> calls that
  never puts the idle task to sleep runs without the fatal condition, and after every
  call the queue has no duplicates, holds only owned tasks and is not empty.
\<close>

theorem run_queue_invariant:
  assumes "queue_ok idle tm" and "keeps_idle_all idle tm xs"
  shows "\<forall>k\<le>length xs. \<exists>tm'. run tm (take k xs) = Some tm' \<and>
           distinct (running tm') \<and> (\<forall>t\<in>set (running tm'). t < length (tasks tm')) \<and>
           running tm' \<noteq> []"
proof (intro allI impI)
  fix k assume "k \<le> length xs"
  have "keeps_idle_all idle tm (take k xs)" using assms(2) by (rule keeps_idle_all_take)
  from queue_ok_run [OF assms(1) this] obtain tm' where
    "run tm (take k xs) = Some tm'" "queue_ok idle tm'" by blast
  then show "\<exists>tm'. run tm (take k xs) = Some tm' \<and>
           distinct (running tm') \<and> (\<forall>t\<in>set (running tm'). t < length (tasks tm')) \<and>
           running tm' \<noteq> []"
    by (auto simp: queue_ok_def)
qed

text \<open>
  C6: \<^verbatim>\<open>SendMessage(id, msg)\<close> returns \<open>kNotFound\<close> and changes nothing when no task has
  the identifier; otherwise it succeeds, the recipient's mailbox is the old one with
  \<open>msg\<close> appended at the tail, no other task changes, and the recipient is in the run
  queue afterwards: appended at the back if it was sleeping, the queue unchanged if not.
\<close>

theorem SendMessage_delivers:
  "(find_task (tasks tm) i = None \<longrightarrow> SendMessage i msg tm = (kNotFound, tm)) \<and>
   (\<forall>t. find_task (tasks tm) i = Some t \<longrightarrow>
      (\<exists>tm'. SendMessage i msg tm = (kSuccess, tm') \<and>
         length (tasks tm') = length (tasks tm) \<and>
         task_id (tasks tm' ! t) = i \<and>
         msgs (tasks tm' ! t) = msgs (tasks tm ! t) @ [msg] \<and>
         (\<forall>u<length (tasks tm). u \<noteq> t \<longrightarrow> tasks tm' ! u = tasks tm ! u) \<and>
         t \<in> set (running tm') \<and>
         running tm' = (if t \<in> set (running tm) then running tm else running tm @ [t])))"
proof (intro conjI allI impI)
  assume "find_task (tasks tm) i = None"
  then show "SendMessage i msg tm = (kNotFound, tm)" by (simp add: SendMessage_def)
next
  fix t assume f: "find_task (tasks tm) i = Some t"
  have t: "t < length (tasks tm)" "task_id (tasks tm ! t) = i"
    using find_task_Some [OF f] by simp_all
  let ?tm = "Wakeup t (tm\<lparr> tasks := (tasks tm)[t := (tasks tm ! t)\<lparr> msgs := msgs (tasks tm ! t) @ [msg] \<rparr>] \<rparr>)"
  have "SendMessage i msg tm = (kSuccess, ?tm)" using f by (simp add: SendMessage_def)
  moreover have "length (tasks ?tm) = length (tasks tm)" by (simp add: Wakeup_def)
  moreover have "task_id (tasks ?tm ! t) = i" using t by (simp add: Wakeup_def)
  moreover have "msgs (tasks ?tm ! t) = msgs (tasks tm ! t) @ [msg]"
    using t by (simp add: Wakeup_def)
  moreover have "\<forall>u<length (tasks tm). u \<noteq> t \<longrightarrow> tasks ?tm ! u = tasks tm ! u"
    by (simp add: Wakeup_def)
  moreover have "t \<in> set (running ?tm)" by (simp add: Wakeup_def)
  moreover have "running ?tm = (if t \<in> set (running tm) then running tm else running tm @ [t])"
    by (simp add: Wakeup_def)
  ultimately show "\<exists>tm'. SendMessage i msg tm = (kSuccess, tm') \<and>
         length (tasks tm') = length (tasks tm) \<and>
         task_id (tasks tm' ! t) = i \<and>
         msgs (tasks tm' ! t) = msgs (tasks tm ! t) @ [msg] \<and>
         (\<forall>u<length (tasks tm). u \<noteq> t \<longrightarrow> tasks tm' ! u = tasks tm ! u) \<and>
         t \<in> set (running tm') \<and>
         running tm' = (if t \<in> set (running tm) then running tm else running tm @ [t])"
    by blast
qed

theorem SendMessage_delivers_witness:
  "find_task [\<lparr> task_id = 1, msgs = [] \<rparr>, \<lparr> task_id = 2, msgs = [Layer] \<rparr>] 2 = Some 1 \<and>
   find_task [\<lparr> task_id = 1, msgs = [] \<rparr>, \<lparr> task_id = 2, msgs = [Layer] \<rparr>] 7 = None \<and>
   (let tm = \<lparr> tasks = [\<lparr> task_id = 1, msgs = [] \<rparr>, \<lparr> task_id = 2, msgs = [Layer] \<rparr>],
               latest_id = 2, running = [0] \<rparr>
    in SendMessage 7 (TimerTimeout 5) tm = (kNotFound, tm) \<and>
       fst (SendMessage 2 (TimerTimeout 5) tm) = kSuccess \<and>
       msgs (tasks (snd (SendMessage 2 (TimerTimeout 5) tm)) ! 1) = [Layer, TimerTimeout 5] \<and>
       running (snd (SendMessage 2 (TimerTimeout 5) tm)) = [0, 1])"
proof -
  let ?ts = "[\<lparr> task_id = 1, msgs = [] \<rparr>, \<lparr> task_id = 2, msgs = [Layer] \<rparr>]"
  let ?tm = "\<lparr> tasks = ?ts, latest_id = 2, running = [0] \<rparr>"
  have f2: "find_task (tasks ?tm) 2 = Some 1" by simp
  have f7: "find_task (tasks ?tm) 7 = None" by simp
  have a: "SendMessage 7 (TimerTimeout 5) ?tm = (kNotFound, ?tm)"
    using SendMessage_delivers [of ?tm 7 "TimerTimeout 5"] f7 by blast
  obtain tm' where b: "SendMessage 2 (TimerTimeout 5) ?tm = (kSuccess, tm')"
      "msgs (tasks tm' ! 1) = msgs (tasks ?tm ! 1) @ [TimerTimeout 5]"
      "running tm' = (if 1 \<in> set (running ?tm) then running ?tm else running ?tm @ [1])"
    using SendMessage_delivers [of ?tm 2 "TimerTimeout 5"] f2 by blast
  show ?thesis using a b f2 f7 by (simp add: Let_def)
qed

theorem run_queue_invariant_witness:
  "queue_ok 0 InitializeTask \<and>
   keeps_idle_all 0 InitializeTask
     [OpNewTask, OpWakeup 1, OpSwitchTask False, OpSendMessage 2 Layer, OpSleep 1,
      OpSwitchTask False] \<and>
   (\<exists>tm'. run InitializeTask
             [OpNewTask, OpWakeup 1, OpSwitchTask False, OpSendMessage 2 Layer, OpSleep 1,
              OpSwitchTask False] = Some tm' \<and>
           distinct (running tm') \<and> (\<forall>t\<in>set (running tm'). t < length (tasks tm')) \<and>
           running tm' \<noteq> [])"
proof -
  let ?xs = "[OpNewTask, OpWakeup 1, OpSwitchTask False, OpSendMessage 2 Layer, OpSleep 1,
              OpSwitchTask False]"
  have ok: "queue_ok 0 InitializeTask"
    by (simp add: InitializeTask_def NewTask_def queue_ok_def)
  have all: "keeps_idle_all 0 InitializeTask ?xs"
    by (simp add: InitializeTask_def NewTask_def Wakeup_def SwitchTask_def SendMessage_def
          Sleep_def)
  have "\<exists>tm'. run InitializeTask (take (length ?xs) ?xs) = Some tm' \<and>
           distinct (running tm') \<and> (\<forall>t\<in>set (running tm'). t < length (tasks tm')) \<and>
           running tm' \<noteq> []"
    using run_queue_invariant [OF ok all] by blast
  then show ?thesis using ok all by simp
qed

section \<open>Loading an application\<close>

subsection \<open>ELF images\<close>

text \<open>
  \<^verbatim>\<open>elf.hpp\<close> is not among the sources. The records have the members that
  \<^verbatim>\<open>terminal.cpp\<close> reads; \<^verbatim>\<open>ET_EXEC\<close> and \<^verbatim>\<open>PT_LOAD\<close> have the values of the ELF
  format (no result below depends on them).
\<close>

record Elf64_Phdr =
  p_type :: u32
  p_offset :: u64
  p_vaddr :: u64
  p_filesz :: u64
  p_memsz :: u64

record Elf64_Ehdr =
  e_ident :: "nat \<Rightarrow> u8"
  e_type :: u16
  e_entry :: u64
  e_phoff :: u64
  e_phnum :: u16

definition ET_EXEC :: u16 where
  "ET_EXEC = 2"

definition PT_LOAD :: u32 where
  "PT_LOAD = 1"

text \<open>
  The buffer \<^verbatim>\<open>file_buf\<close> that \<^verbatim>\<open>fat::LoadFile\<close> fills, as the code looks at it: through
  the cast to \<^verbatim>\<open>Elf64_Ehdr*\<close>, as the array of \<^verbatim>\<open>Elf64_Phdr\<close> found at a byte offset, and
  byte by byte.
\<close>

record elf_file =
  ehdr :: Elf64_Ehdr
  phdr_at :: "u64 \<Rightarrow> nat \<Rightarrow> Elf64_Phdr"
  content :: "u64 \<Rightarrow> u8"

definition GetProgramHeader :: "elf_file \<Rightarrow> nat \<Rightarrow> Elf64_Phdr" where
  "GetProgramHeader f = phdr_at f (e_phoff (ehdr f))"

text \<open>The loop of \<^verbatim>\<open>GetFirstLoadAddress\<close> over the indices that are left.\<close>

fun first_load :: "(nat \<Rightarrow> Elf64_Phdr) \<Rightarrow> nat list \<Rightarrow> u64" where
  "first_load phdr [] = 0"
| "first_load phdr (i # rest) =
     (if p_type (phdr i) \<noteq> PT_LOAD then first_load phdr rest else p_vaddr (phdr i))"

definition GetFirstLoadAddress :: "elf_file \<Rightarrow> u64" where
  "GetFirstLoadAddress f =
     first_load (GetProgramHeader f) [0..<unat (e_phnum (ehdr f))]"

subsection \<open>Page maps, the task and the load cache\<close>

text \<open>
  The paging structures: the register CR3, the frame allocator (the frames that are
  free), the page maps by the address of their frame (512 entries each), and the
  memory the kernel writes through virtual addresses while an image is loaded.
\<close>

record paging =
  CR3 :: u64
  free_frames :: "u64 list"
  tables :: "u64 \<Rightarrow> nat \<Rightarrow> u64"
  vmem :: "u64 \<Rightarrow> u8"

record AppLoadInfo =
  vaddr_end :: u64
  entry :: u64
  pml4 :: u64

text \<open>A value-initialised \<^verbatim>\<open>AppLoadInfo\<close>, the \<^verbatim>\<open>{}\<close> of the error returns.\<close>

definition no_info :: AppLoadInfo where
  "no_info = \<lparr> vaddr_end = 0, entry = 0, pml4 = 0 \<rparr>"

datatype FileDescriptor = TerminalFileDescriptor

text \<open>
  What \<^verbatim>\<open>ExecuteFile\<close> touches: the paging structures, the current task
  (\<^verbatim>\<open>Context().cr3\<close>, the demand paging window, the end of the file maps, \<^verbatim>\<open>Files()\<close>,
  the number of \<^verbatim>\<open>FileMaps()\<close>), the map \<^verbatim>\<open>app_loads\<close> keyed by the address of the
  directory entry, and the calls of \<^verbatim>\<open>fat::LoadFile\<close> made so far.
\<close>

record kernel =
  mm :: paging
  ctx_cr3 :: u64
  dpaging_begin :: u64
  dpaging_end :: u64
  file_map_end :: u64
  files :: "FileDescriptor list"
  file_maps :: nat
  app_loads :: "nat \<rightharpoonup> AppLoadInfo"
  file_reads :: "nat list"

text \<open>
  The functions of \<^verbatim>\<open>paging.cpp\<close> and \<^verbatim>\<open>asmfunc\<close> that \<^verbatim>\<open>terminal.cpp\<close> calls and the
  specification does not describe are parameters: \<^verbatim>\<open>SetupPageMaps(addr, num_4kpages,
  writable)\<close> (the third argument is \<open>None\<close> where the call leaves it out),
  \<^verbatim>\<open>CleanPageMaps(addr)\<close>, the run of the application inside \<^verbatim>\<open>CallApp\<close> (given
  \<^verbatim>\<open>argc\<close>, the argument arrays, the entry point and the stack pointer), and the page
  map that \<^verbatim>\<open>ResetCR3\<close> loads.
\<close>

record ext =
  SetupPageMaps :: "u64 \<Rightarrow> u64 \<Rightarrow> bool option \<Rightarrow> paging \<Rightarrow> Error \<times> paging"
  CleanPageMaps :: "u64 \<Rightarrow> paging \<Rightarrow> Error \<times> paging"
  CallApp :: "nat \<Rightarrow> argstate \<Rightarrow> u64 \<Rightarrow> u64 \<Rightarrow> kernel \<Rightarrow> int \<times> kernel"
  kernel_pml4 :: u64

text \<open>
  Modelled from the spec: \<^verbatim>\<open>NewPageMap\<close>, whose definition is missing. Creating a root
  ``allocates one fresh top-level table frame'' and ``fails with OutOfMemory if no frame
  is available''.
\<close>

definition NewPageMap :: "paging \<Rightarrow> u64 WithError \<times> paging" where
  "NewPageMap m =
     (case free_frames m of
        [] \<Rightarrow> ((0, kOutOfMemory), m)
      | frame # rest \<Rightarrow> ((frame, kSuccess), m\<lparr> free_frames := rest \<rparr>))"

text \<open>
  Modelled from the spec: \<^verbatim>\<open>CopyPageMaps\<close>, whose definition is missing. The spec
  describes the call \<^verbatim>\<open>CopyPageMaps(dest, src, 4, 256)\<close> of \<^verbatim>\<open>LoadApp\<close> as to ``alias
  slots [4, 256)'' of \<open>src\<close> into \<open>dest\<close>, so the two numbers are the bounds of the
  slot range; it ``shares the referenced lower-level tables [...] without copying any
  page contents'', with ``no frame allocation''.
\<close>

definition CopyPageMaps :: "u64 \<Rightarrow> u64 \<Rightarrow> nat \<Rightarrow> nat \<Rightarrow> paging \<Rightarrow> Error \<times> paging" where
  "CopyPageMaps dest src first_slot end_slot m =
     (kSuccess,
      m\<lparr> tables := (tables m)
            (dest := (\<lambda>i. if first_slot \<le> i \<and> i < end_slot then tables m src i
                           else tables m dest i)) \<rparr>)"

text \<open>
  Modelled from the spec: \<^verbatim>\<open>FreePageMap\<close>, whose definition is missing. Releasing a root
  ``frees exactly the one physical frame backing root's top-level table''.
\<close>

definition FreePageMap :: "u64 \<Rightarrow> paging \<Rightarrow> Error \<times> paging" where
  "FreePageMap frame m = (kSuccess, m\<lparr> free_frames := frame # free_frames m \<rparr>)"

subsection \<open>\<^verbatim>\<open>CopyLoadSegments\<close>, \<^verbatim>\<open>LoadELF\<close>\<close>

text \<open>
  \<^verbatim>\<open>memcpy(dst, src, p_filesz)\<close> followed by
  \<^verbatim>\<open>memset(dst + p_filesz, 0, p_memsz - p_filesz)\<close>, with the address arithmetic of
  64-bit words.
\<close>

definition copy_segment :: "elf_file \<Rightarrow> Elf64_Phdr \<Rightarrow> (u64 \<Rightarrow> u8) \<Rightarrow> (u64 \<Rightarrow> u8)" where
  "copy_segment f ph mem =
     (\<lambda>a. if a - (p_vaddr ph + p_filesz ph) < p_memsz ph - p_filesz ph then 0
          else if a - p_vaddr ph < p_filesz ph then content f (p_offset ph + (a - p_vaddr ph))
          else mem a)"

text \<open>The loop of \<^verbatim>\<open>CopyLoadSegments\<close> over the indices that are left.\<close>

fun copy_segments ::
  "ext \<Rightarrow> elf_file \<Rightarrow> nat list \<Rightarrow> u64 \<Rightarrow> paging \<Rightarrow> u64 WithError \<times> paging" where
  "copy_segments X f [] last_addr m = ((last_addr, kSuccess), m)"
| "copy_segments X f (i # rest) last_addr m =
     (let ph = GetProgramHeader f i in
      if p_type ph \<noteq> PT_LOAD then copy_segments X f rest last_addr m
      else
        let dest_addr = p_vaddr ph;
            last_addr' = max last_addr (p_vaddr ph + p_memsz ph);
            num_4kpages = (p_memsz ph + 4095) div 4096;
            (err, m') = SetupPageMaps X dest_addr num_4kpages (Some False) m
        in if err \<noteq> kSuccess then ((last_addr', err), m')
           else copy_segments X f rest last_addr'
                  (m'\<lparr> vmem := copy_segment f ph (vmem m') \<rparr>))"

definition CopyLoadSegments :: "ext \<Rightarrow> elf_file \<Rightarrow> paging \<Rightarrow> u64 WithError \<times> paging" where
  "CopyLoadSegments X f m =
     copy_segments X f [0..<unat (e_phnum (ehdr f))] 0 m"

definition LoadELF :: "ext \<Rightarrow> elf_file \<Rightarrow> paging \<Rightarrow> u64 WithError \<times> paging" where
  "LoadELF X f m =
     (if e_type (ehdr f) \<noteq> ET_EXEC then ((0, kInvalidFormat), m)
      else
        let addr_first = GetFirstLoadAddress f
        in if addr_first < 0xffff800000000000 then ((0, kInvalidFormat), m)
           else CopyLoadSegments X f m)"

subsection \<open>\<^verbatim>\<open>SetupPML4\<close>, \<^verbatim>\<open>FreePML4\<close>, \<^verbatim>\<open>LoadApp\<close>\<close>

definition SetupPML4 :: "kernel \<Rightarrow> u64 WithError \<times> kernel" where
  "SetupPML4 s =
     (let (new_pml4, m) = NewPageMap (mm s)
      in if snd new_pml4 \<noteq> kSuccess then (new_pml4, s\<lparr> mm := m \<rparr>)
         else
           let current_pml4 = CR3 m;
               m1 = m\<lparr> tables := (tables m)
                       (fst new_pml4 := (\<lambda>i. if i < 256 then tables m current_pml4 i
                                          else tables m (fst new_pml4) i)) \<rparr>;
               cr3 = fst new_pml4;
               m2 = m1\<lparr> CR3 := cr3 \<rparr>
           in (new_pml4, s\<lparr> mm := m2, ctx_cr3 := cr3 \<rparr>))"

definition FreePML4 :: "ext \<Rightarrow> kernel \<Rightarrow> Error \<times> kernel" where
  "FreePML4 X s =
     (let cr3 = ctx_cr3 s;
          s1 = s\<lparr> ctx_cr3 := 0 \<rparr>;
          m1 = (mm s1)\<lparr> CR3 := kernel_pml4 X \<rparr>;
          (err, m2) = FreePageMap cr3 m1
      in (err, s1\<lparr> mm := m2 \<rparr>))"

text \<open>The four bytes \<^verbatim>\<open>"\x7f" "ELF"\<close>.\<close>

definition elf_magic :: "u8 list" where
  "elf_magic = [0x7f, 0x45, 0x4c, 0x46]"

text \<open>
  \<^verbatim>\<open>LoadApp(file_entry, task)\<close>: \<open>file_entry\<close> is the address of the directory entry,
  the key of \<^verbatim>\<open>app_loads\<close>, and \<open>f\<close> is what \<^verbatim>\<open>fat::LoadFile\<close> reads for it.
  \<^verbatim>\<open>std::map::insert\<close> leaves an entry that is present as it is.
\<close>

definition LoadApp :: "ext \<Rightarrow> nat \<Rightarrow> elf_file \<Rightarrow> kernel \<Rightarrow> AppLoadInfo WithError \<times> kernel" where
  "LoadApp X file_entry f s =
     (let ((new_pml4, err), s1) = SetupPML4 s
      in if err \<noteq> kSuccess then ((no_info, err), s1)
         else
           let temp_pml4 = new_pml4
           in case app_loads s1 file_entry of
                Some app_load \<Rightarrow>
                  (let (err, m) = CopyPageMaps temp_pml4 (pml4 app_load) 4 256 (mm s1)
                   in ((app_load\<lparr> pml4 := temp_pml4 \<rparr>, err), s1\<lparr> mm := m \<rparr>))
              | None \<Rightarrow>
                  (let s2 = s1\<lparr> file_reads := file_reads s1 @ [file_entry] \<rparr>
                   in if map (e_ident (ehdr f)) [0..<4] \<noteq> elf_magic
                      then ((no_info, kInvalidFile), s2)
                      else
                        let ((last_addr, err_load), m3) = LoadELF X f (mm s2);
                            s3 = s2\<lparr> mm := m3 \<rparr>
                        in if err_load \<noteq> kSuccess then ((no_info, err_load), s3)
                           else
                             let app_load = \<lparr> vaddr_end = last_addr, entry = e_entry (ehdr f),
                                              pml4 = temp_pml4 \<rparr>;
                                 s4 = s3\<lparr> app_loads :=
                                           (if app_loads s3 file_entry \<noteq> None then app_loads s3
                                            else (app_loads s3)(file_entry \<mapsto> app_load)) \<rparr>;
                                 ((new_pml4', err), s5) = SetupPML4 s4
                             in if err \<noteq> kSuccess then ((app_load, err), s5)
                                else
                                  let app_load' = app_load\<lparr> pml4 := new_pml4' \<rparr>;
                                      (err, m6) = CopyPageMaps (pml4 app_load') temp_pml4 4 256 (mm s5)
                                  in ((app_load', err), s5\<lparr> mm := m6 \<rparr>)))"

subsection \<open>\<^verbatim>\<open>Terminal::ExecuteFile\<close>\<close>

text \<open>What \<^verbatim>\<open>ExecuteFile\<close> has at hand when it calls \<^verbatim>\<open>CallApp\<close>.\<close>

record exec_ready =
  ready_app_load :: AppLoadInfo
  ready_argc :: nat
  ready_args :: argstate
  ready_stack :: u64

text \<open>
  \<^verbatim>\<open>ExecuteFile\<close> up to the call of \<^verbatim>\<open>CallApp\<close>: an error return (\<open>Inl\<close>) or the
  values passed on (\<open>Inr\<close>), the \<^verbatim>\<open>first_arg\<close> buffer and the state. \<open>argv0\<close> and
  \<open>argbuf0\<close> are the contents of the argument frame when it has been mapped. The output
  of \<^verbatim>\<open>Print\<close> is not part of the state.
\<close>

definition ExecuteFile_setup ::
  "ext \<Rightarrow> nat \<Rightarrow> elf_file \<Rightarrow> char list \<Rightarrow> char list option \<Rightarrow> (nat \<Rightarrow> nat) \<Rightarrow> (nat \<Rightarrow> char)
     \<Rightarrow> kernel \<Rightarrow> (Error + exec_ready) \<times> char list option \<times> kernel" where
  "ExecuteFile_setup X file_entry f command first_arg argv0 argbuf0 s =
     (let ((app_load, err), s1) = LoadApp X file_entry f s
      in if err \<noteq> kSuccess then (Inl err, first_arg, s1)
         else
           let args_frame_addr = (0xfffffffffffff000 :: u64);
               (err, m2) = SetupPageMaps X args_frame_addr 1 None (mm s1);
               s2 = s1\<lparr> mm := m2 \<rparr>
           in if err \<noteq> kSuccess then (Inl err, first_arg, s2)
              else
                let argv_len = 32;
                    argbuf_len = 4096 - 8 * argv_len;
                    (argc, first_arg', args) =
                       MakeArgVector command first_arg argv0 argv_len argbuf0 argbuf_len
                in if snd argc \<noteq> kSuccess then (Inl (snd argc), first_arg', s2)
                   else
                     let stack_size = (8 * 4096 :: u64);
                         stack_frame_addr = 0xfffffffffffff000 - stack_size;
                         (err, m3) = SetupPageMaps X stack_frame_addr (stack_size div 4096) None (mm s2);
                         s3 = s2\<lparr> mm := m3 \<rparr>
                     in if err \<noteq> kSuccess then (Inl err, first_arg', s3)
                        else
                          let s4 = s3\<lparr> files := files s3 @
                                      [TerminalFileDescriptor, TerminalFileDescriptor,
                                       TerminalFileDescriptor] \<rparr>;
                              elf_next_page =
                                (vaddr_end app_load + 4095) AND 0xfffffffffffff000;
                              s5 = s4\<lparr> dpaging_begin := elf_next_page \<rparr>;
                              s6 = s5\<lparr> dpaging_end := elf_next_page \<rparr>;
                              s7 = s6\<lparr> file_map_end := stack_frame_addr \<rparr>
                          in (Inr \<lparr> ready_app_load = app_load, ready_argc = fst argc,
                                     ready_args = args, ready_stack = stack_frame_addr \<rparr>,
                              first_arg', s7))"

text \<open>\<^verbatim>\<open>ExecuteFile\<close>: the call of \<^verbatim>\<open>CallApp\<close> and what follows it.\<close>

definition ExecuteFile ::
  "ext \<Rightarrow> nat \<Rightarrow> elf_file \<Rightarrow> char list \<Rightarrow> char list option \<Rightarrow> (nat \<Rightarrow> nat) \<Rightarrow> (nat \<Rightarrow> char)
     \<Rightarrow> kernel \<Rightarrow> Error \<times> char list option \<times> kernel" where
  "ExecuteFile X file_entry f command first_arg argv0 argbuf0 s =
     (case ExecuteFile_setup X file_entry f command first_arg argv0 argbuf0 s of
        (Inl err, first_arg', s') \<Rightarrow> (err, first_arg', s')
      | (Inr r, first_arg', s') \<Rightarrow>
          (let (ret, s1) = CallApp X (ready_argc r) (ready_args r) (entry (ready_app_load r))
                             (ready_stack r + 8 * 4096 - 8) s';
               s2 = s1\<lparr> files := [], file_maps := 0 \<rparr>;
               (err, m3) = CleanPageMaps X 0xffff800000000000 (mm s2);
               s3 = s2\<lparr> mm := m3 \<rparr>
           in if err \<noteq> kSuccess then (err, first_arg', s3)
              else let (err, s4) = FreePML4 X s3 in (err, first_arg', s4)))"

subsection \<open>Examples\<close>

text \<open>
  An instance of the parameters: mapping and cleaning pages succeed and change nothing,
  the application returns 0 at once, and the kernel's own page map lies at \<open>0x1000\<close>.
\<close>

definition plain_ext :: ext where
  "plain_ext =
     \<lparr> SetupPageMaps = (\<lambda>addr n w m. (kSuccess, m)),
       CleanPageMaps = (\<lambda>addr m. (kSuccess, m)),
       CallApp = (\<lambda>argc args entry_addr sp s. (0, s)),
       kernel_pml4 = 0x1000 \<rparr>"

text \<open>A terminal task that runs no application, with three free frames.\<close>

definition idle_kernel :: kernel where
  "idle_kernel =
     \<lparr> mm = \<lparr> CR3 = 0x1000, free_frames = [0x2000, 0x3000, 0x4000],
              tables = (\<lambda>frame i. 0), vmem = (\<lambda>a. 0) \<rparr>,
       ctx_cr3 = 0, dpaging_begin = 0, dpaging_end = 0, file_map_end = 0,
       files = [], file_maps = 0, app_loads = Map.empty, file_reads = [] \<rparr>"

text \<open>A file of zero bytes only: no ELF magic.\<close>

definition zero_file :: elf_file where
  "zero_file =
     \<lparr> ehdr = \<lparr> e_ident = (\<lambda>i. 0), e_type = 0, e_entry = 0, e_phoff = 0, e_phnum = 0 \<rparr>,
       phdr_at = (\<lambda>off i. \<lparr> p_type = 0, p_offset = 0, p_vaddr = 0, p_filesz = 0, p_memsz = 0 \<rparr>),
       content = (\<lambda>a. 0) \<rparr>"

text \<open>
  An executable with one loadable segment of \<open>0x1234\<close> bytes at
  \<open>0xffff800000000000\<close>.
\<close>

definition small_app :: elf_file where
  "small_app =
     \<lparr> ehdr = \<lparr> e_ident = (\<lambda>i. if i = 0 then 0x7f else if i = 1 then 0x45
                                else if i = 2 then 0x4c else if i = 3 then 0x46 else 0),
                e_type = 2, e_entry = 0xffff800000000100, e_phoff = 64, e_phnum = 2 \<rparr>,
       phdr_at = (\<lambda>off i. if off = 64 \<and> i = 1
                    then \<lparr> p_type = 1, p_offset = 0x1000, p_vaddr = 0xffff800000000000,
                           p_filesz = 0x1000, p_memsz = 0x1234 \<rparr>
                    else \<lparr> p_type = 0, p_offset = 0, p_vaddr = 0, p_filesz = 0, p_memsz = 0 \<rparr>),
       content = (\<lambda>a. 0x90) \<rparr>"



subsection \<open>Properties of the loader\<close>

lemma SetupPML4_fail:
  "free_frames (mm s) = [] \<Longrightarrow> SetupPML4 s = ((0, kOutOfMemory), s)"
  by (simp add: SetupPML4_def NewPageMap_def)

lemma SetupPML4_ok:
  assumes "free_frames (mm s) = fr # rest"
  obtains s1 where "SetupPML4 s = ((fr, kSuccess), s1)"
    and "CR3 (mm s1) = fr" and "ctx_cr3 s1 = fr" and "free_frames (mm s1) = rest"
    and "vmem (mm s1) = vmem (mm s)"
    and "tables (mm s1) = (tables (mm s))
           (fr := (\<lambda>i. if i < 256 then tables (mm s) (CR3 (mm s)) i else tables (mm s) fr i))"
    and "app_loads s1 = app_loads s" and "file_reads s1 = file_reads s"
    and "dpaging_begin s1 = dpaging_begin s" and "dpaging_end s1 = dpaging_end s"
  using assms by (simp add: SetupPML4_def NewPageMap_def Let_def cong: if_cong)

lemma SetupPML4_app_loads: "app_loads (snd (SetupPML4 s)) = app_loads s"
  by (simp add: SetupPML4_def NewPageMap_def Let_def split: list.splits prod.splits)

text \<open>
  C3 (amended): for a file that is not in the load cache and whose first four bytes are
  not the ELF magic, \<^verbatim>\<open>LoadApp\<close> fails with \<open>kInvalidFile\<close> (not \<open>kInvalidFormat\<close>)
  once the temporary root has been allocated, and with the allocation's error when no
  frame is free; the returned \<^verbatim>\<open>AppLoadInfo\<close> is the value-initialised one and the load
  cache is unchanged.
\<close>

theorem LoadApp_bad_magic:
  assumes miss: "app_loads s file_entry = None"
    and magic: "map (e_ident (ehdr f)) [0..<4] \<noteq> elf_magic"
  shows "fst (LoadApp X file_entry f s) =
           (no_info, if free_frames (mm s) = [] then kOutOfMemory else kInvalidFile) \<and>
         app_loads (snd (LoadApp X file_entry f s)) = app_loads s"
proof (cases "free_frames (mm s)")
  case Nil
  then show ?thesis by (simp add: LoadApp_def SetupPML4_fail)
next
  case (Cons fr rest)
  from SetupPML4_ok [OF Cons] obtain s1 where s1: "SetupPML4 s = ((fr, kSuccess), s1)"
    "app_loads s1 = app_loads s" by metis
  show ?thesis using s1 miss magic Cons by (simp add: LoadApp_def Let_def)
qed

theorem LoadApp_bad_magic_witness:
  "app_loads idle_kernel 7 = None \<and> map (e_ident (ehdr zero_file)) [0..<4] \<noteq> elf_magic \<and>
   fst (LoadApp plain_ext 7 zero_file idle_kernel) = (no_info, kInvalidFile)"
proof -
  have miss: "app_loads idle_kernel 7 = None" by (simp add: idle_kernel_def)
  have magic: "map (e_ident (ehdr zero_file)) [0..<4] \<noteq> elf_magic"
    by (simp add: zero_file_def elf_magic_def upt_rec)
  have "free_frames (mm idle_kernel) \<noteq> []" by (simp add: idle_kernel_def)
  then show ?thesis using LoadApp_bad_magic [OF miss magic, of plain_ext] miss magic by simp
qed

theorem LoadApp_bad_magic_not_InvalidFormat:
  "map (e_ident (ehdr zero_file)) [0..<4] \<noteq> elf_magic \<and>
   snd (fst (LoadApp plain_ext 7 zero_file idle_kernel)) \<noteq> kInvalidFormat"
  by (simp add: LoadApp_def SetupPML4_def NewPageMap_def idle_kernel_def zero_file_def
        elf_magic_def upt_rec Let_def)

lemma first_load_none: "\<forall>i\<in>set is. p_type (phdr i) \<noteq> PT_LOAD \<Longrightarrow> first_load phdr is = 0"
  by (induction "is") auto

lemma first_load_first:
  "first_load phdr (xs @ i # ys) =
     (if \<forall>j\<in>set xs. p_type (phdr j) \<noteq> PT_LOAD
      then (if p_type (phdr i) = PT_LOAD then p_vaddr (phdr i) else first_load phdr ys)
      else first_load phdr xs)"
  by (induction xs) auto

lemma GetFirstLoadAddress_first:
  assumes i: "i < unat (e_phnum (ehdr f))" and l: "p_type (GetProgramHeader f i) = PT_LOAD"
    and before: "\<forall>j<i. p_type (GetProgramHeader f j) \<noteq> PT_LOAD"
  shows "GetFirstLoadAddress f = p_vaddr (GetProgramHeader f i)"
proof -
  have "[0..<unat (e_phnum (ehdr f))] = [0..<i] @ i # [Suc i..<unat (e_phnum (ehdr f))]"
    using i by (metis less_imp_add_positive upt_add_eq_append upt_conv_Cons zero_le)
  then show ?thesis using l before by (simp add: GetFirstLoadAddress_def first_load_first)
qed

text \<open>
  C1: a failed exec attempt at a concrete input. The file has no ELF magic, so \<^verbatim>\<open>LoadApp\<close>
  returns \<open>kInvalidFile\<close> and \<^verbatim>\<open>ExecuteFile\<close> returns it at once; the page map that
  \<^verbatim>\<open>SetupPML4\<close> allocated stays in CR3 and in the task's context and is not handed back
  to the allocator.
\<close>

theorem ExecuteFile_bad_magic_keeps_root:
  "fst (ExecuteFile plain_ext 7 zero_file ''app'' None (\<lambda>i. 0) (\<lambda>a. NUL) idle_kernel)
     = kInvalidFile \<and>
   CR3 (mm idle_kernel) = 0x1000 \<and> ctx_cr3 idle_kernel = 0 \<and>
   free_frames (mm idle_kernel) = [0x2000, 0x3000, 0x4000] \<and>
   CR3 (mm (snd (snd (ExecuteFile plain_ext 7 zero_file ''app'' None (\<lambda>i. 0) (\<lambda>a. NUL)
                        idle_kernel)))) = 0x2000 \<and>
   ctx_cr3 (snd (snd (ExecuteFile plain_ext 7 zero_file ''app'' None (\<lambda>i. 0) (\<lambda>a. NUL)
                        idle_kernel))) = 0x2000 \<and>
   free_frames (mm (snd (snd (ExecuteFile plain_ext 7 zero_file ''app'' None (\<lambda>i. 0)
                        (\<lambda>a. NUL) idle_kernel)))) = [0x3000, 0x4000]"
  by (simp add: ExecuteFile_def ExecuteFile_setup_def LoadApp_def SetupPML4_def NewPageMap_def
        idle_kernel_def zero_file_def elf_magic_def upt_rec Let_def)

text \<open>
  C4: \<^verbatim>\<open>LoadELF\<close> returns \<open>kInvalidFormat\<close>, touching nothing, when the type is not
  \<^verbatim>\<open>ET_EXEC\<close> or the first loadable segment's address is below
  \<open>0xffff800000000000\<close>; that address is 0 when no program header is \<^verbatim>\<open>PT_LOAD\<close> and
  the \<^verbatim>\<open>p_vaddr\<close> of the first such header otherwise. Only when both checks pass does
  it go on to \<^verbatim>\<open>CopyLoadSegments\<close>. For a file with the ELF magic that is not in the
  load cache, once the temporary root is allocated, \<^verbatim>\<open>LoadApp\<close> then fails with
  \<open>kInvalidFormat\<close>, with no byte copied and nothing cached.
\<close>

theorem LoadELF_checks:
  "(e_type (ehdr f) \<noteq> ET_EXEC \<or> GetFirstLoadAddress f < 0xffff800000000000 \<longrightarrow>
      LoadELF X f m = ((0, kInvalidFormat), m)) \<and>
   (e_type (ehdr f) = ET_EXEC \<and> \<not> GetFirstLoadAddress f < 0xffff800000000000 \<longrightarrow>
      LoadELF X f m = CopyLoadSegments X f m) \<and>
   ((\<forall>i<unat (e_phnum (ehdr f)). p_type (GetProgramHeader f i) \<noteq> PT_LOAD) \<longrightarrow>
      GetFirstLoadAddress f = 0) \<and>
   (\<forall>i<unat (e_phnum (ehdr f)).
      p_type (GetProgramHeader f i) = PT_LOAD \<and>
      (\<forall>j<i. p_type (GetProgramHeader f j) \<noteq> PT_LOAD) \<longrightarrow>
      GetFirstLoadAddress f = p_vaddr (GetProgramHeader f i)) \<and>
   (app_loads s file_entry = None \<and> free_frames (mm s) \<noteq> [] \<and>
    map (e_ident (ehdr f)) [0..<4] = elf_magic \<and>
    (e_type (ehdr f) \<noteq> ET_EXEC \<or> GetFirstLoadAddress f < 0xffff800000000000) \<longrightarrow>
      fst (LoadApp X file_entry f s) = (no_info, kInvalidFormat) \<and>
      vmem (mm (snd (LoadApp X file_entry f s))) = vmem (mm s) \<and>
      app_loads (snd (LoadApp X file_entry f s)) = app_loads s)"
proof (intro conjI impI allI)
  assume "e_type (ehdr f) \<noteq> ET_EXEC \<or> GetFirstLoadAddress f < 0xffff800000000000"
  then show "LoadELF X f m = ((0, kInvalidFormat), m)"
    by (auto simp: LoadELF_def Let_def)
next
  assume "e_type (ehdr f) = ET_EXEC \<and> \<not> GetFirstLoadAddress f < 0xffff800000000000"
  then show "LoadELF X f m = CopyLoadSegments X f m"
    by (simp add: LoadELF_def Let_def)
next
  assume "\<forall>i<unat (e_phnum (ehdr f)). p_type (GetProgramHeader f i) \<noteq> PT_LOAD"
  then show "GetFirstLoadAddress f = 0"
    by (simp add: GetFirstLoadAddress_def first_load_none)
next
  fix i
  assume "i < unat (e_phnum (ehdr f))"
    and "p_type (GetProgramHeader f i) = PT_LOAD \<and>
         (\<forall>j<i. p_type (GetProgramHeader f j) \<noteq> PT_LOAD)"
  then show "GetFirstLoadAddress f = p_vaddr (GetProgramHeader f i)"
    by (simp add: GetFirstLoadAddress_first)
next
  assume a: "app_loads s file_entry = None \<and> free_frames (mm s) \<noteq> [] \<and>
    map (e_ident (ehdr f)) [0..<4] = elf_magic \<and>
    (e_type (ehdr f) \<noteq> ET_EXEC \<or> GetFirstLoadAddress f < 0xffff800000000000)"
  then obtain fr rest where fr: "free_frames (mm s) = fr # rest"
    by (cases "free_frames (mm s)") auto
  from SetupPML4_ok [OF fr] obtain s1 where s1: "SetupPML4 s = ((fr, kSuccess), s1)"
    "app_loads s1 = app_loads s" "vmem (mm s1) = vmem (mm s)" by metis
  have bad: "LoadELF X f (mm s1) = ((0, kInvalidFormat), mm s1)"
    using a by (auto simp: LoadELF_def Let_def)
  have "fst (LoadApp X file_entry f s) = (no_info, kInvalidFormat) \<and>
      vmem (mm (snd (LoadApp X file_entry f s))) = vmem (mm s) \<and>
      app_loads (snd (LoadApp X file_entry f s)) = app_loads s"
    using a s1 bad by (simp add: LoadApp_def Let_def)
  then show "fst (LoadApp X file_entry f s) = (no_info, kInvalidFormat)"
    "vmem (mm (snd (LoadApp X file_entry f s))) = vmem (mm s)"
    "app_loads (snd (LoadApp X file_entry f s)) = app_loads s"
    by simp_all
qed

text \<open>A shared object: the ELF magic, but a type other than \<^verbatim>\<open>ET_EXEC\<close>.\<close>

definition shared_object :: elf_file where
  "shared_object = small_app\<lparr> ehdr := (ehdr small_app)\<lparr> e_type := 3 \<rparr> \<rparr>"

theorem LoadELF_checks_witness:
  "e_type (ehdr shared_object) \<noteq> ET_EXEC \<and>
   app_loads idle_kernel 7 = None \<and> free_frames (mm idle_kernel) \<noteq> [] \<and>
   map (e_ident (ehdr shared_object)) [0..<4] = elf_magic \<and>
   LoadELF plain_ext shared_object (mm idle_kernel) = ((0, kInvalidFormat), mm idle_kernel) \<and>
   fst (LoadApp plain_ext 7 shared_object idle_kernel) = (no_info, kInvalidFormat) \<and>
   GetFirstLoadAddress small_app = 0xffff800000000000"
proof -
  have t: "e_type (ehdr shared_object) \<noteq> ET_EXEC"
    by (simp add: shared_object_def small_app_def ET_EXEC_def)
  have miss: "app_loads idle_kernel 7 = None" by (simp add: idle_kernel_def)
  have fr: "free_frames (mm idle_kernel) \<noteq> []" by (simp add: idle_kernel_def)
  have magic: "map (e_ident (ehdr shared_object)) [0..<4] = elf_magic"
    by (simp add: shared_object_def small_app_def elf_magic_def upt_rec)
  have n: "(1::nat) < unat (e_phnum (ehdr small_app))" by (simp add: small_app_def)
  have l: "p_type (GetProgramHeader small_app 1) = PT_LOAD \<and>
           (\<forall>j<1. p_type (GetProgramHeader small_app j) \<noteq> PT_LOAD)"
    by (simp add: small_app_def GetProgramHeader_def PT_LOAD_def)
  have v: "p_vaddr (GetProgramHeader small_app 1) = 0xffff800000000000"
    by (simp add: small_app_def GetProgramHeader_def)
  note th = LoadELF_checks [of shared_object plain_ext "mm idle_kernel" idle_kernel 7]
  have a: "LoadELF plain_ext shared_object (mm idle_kernel) = ((0, kInvalidFormat), mm idle_kernel)"
    using th t by blast
  have b: "fst (LoadApp plain_ext 7 shared_object idle_kernel) = (no_info, kInvalidFormat)"
    using th t miss fr magic by blast
  have c: "GetFirstLoadAddress small_app = p_vaddr (GetProgramHeader small_app 1)"
    using LoadELF_checks [of small_app plain_ext "mm idle_kernel" idle_kernel 7] n l by blast
  show ?thesis using t miss fr magic a b c v by simp
qed

lemma LoadApp_hit:
  assumes hit: "app_loads s file_entry = Some cached"
    and fr: "free_frames (mm s) = fr # rest"
  shows "fst (LoadApp X file_entry f s) = (cached\<lparr> pml4 := fr \<rparr>, kSuccess)"
    and "LoadApp X file_entry f s = LoadApp X' file_entry f' s"
    and "file_reads (snd (LoadApp X file_entry f s)) = file_reads s"
    and "app_loads (snd (LoadApp X file_entry f s)) = app_loads s"
    and "free_frames (mm (snd (LoadApp X file_entry f s))) = rest"
    and "vmem (mm (snd (LoadApp X file_entry f s))) = vmem (mm s)"
    and "CR3 (mm (snd (LoadApp X file_entry f s))) = fr"
    and "ctx_cr3 (snd (LoadApp X file_entry f s)) = fr"
    and "tables (mm (snd (LoadApp X file_entry f s))) fr i =
           (if 4 \<le> i \<and> i < 256 \<and> pml4 cached \<noteq> fr then tables (mm s) (pml4 cached) i
            else if i < 256 then tables (mm s) (CR3 (mm s)) i
            else tables (mm s) fr i)"
    and "g \<noteq> fr \<Longrightarrow> tables (mm (snd (LoadApp X file_entry f s))) g = tables (mm s) g"
proof -
  obtain s1 where s1: "SetupPML4 s = ((fr, kSuccess), s1)"
    "CR3 (mm s1) = fr" "ctx_cr3 s1 = fr" "free_frames (mm s1) = rest"
    "vmem (mm s1) = vmem (mm s)"
    "tables (mm s1) = (tables (mm s))
           (fr := (\<lambda>i. if i < 256 then tables (mm s) (CR3 (mm s)) i else tables (mm s) fr i))"
    "app_loads s1 = app_loads s" "file_reads s1 = file_reads s"
    "dpaging_begin s1 = dpaging_begin s" "dpaging_end s1 = dpaging_end s"
    by (rule SetupPML4_ok [OF fr])
  let ?s' = "s1\<lparr> mm := snd (CopyPageMaps fr (pml4 cached) 4 256 (mm s1)) \<rparr>"
  have run: "\<And>X f. LoadApp X file_entry f s = ((cached\<lparr> pml4 := fr \<rparr>, kSuccess), ?s')"
    using s1(1,7) hit by (simp add: LoadApp_def Let_def CopyPageMaps_def)
  have t: "tables (mm ?s') =
      (tables (mm s1))(fr := (\<lambda>i. if 4 \<le> i \<and> i < 256 then tables (mm s1) (pml4 cached) i
                                    else tables (mm s1) fr i))"
    by (simp add: CopyPageMaps_def)
  show "fst (LoadApp X file_entry f s) = (cached\<lparr> pml4 := fr \<rparr>, kSuccess)"
    unfolding run by simp
  show "LoadApp X file_entry f s = LoadApp X' file_entry f' s"
    unfolding run by simp
  show "file_reads (snd (LoadApp X file_entry f s)) = file_reads s"
    unfolding run using s1(8) by simp
  show "app_loads (snd (LoadApp X file_entry f s)) = app_loads s"
    unfolding run using s1(7) by simp
  show "free_frames (mm (snd (LoadApp X file_entry f s))) = rest"
    unfolding run using s1(4) by (simp add: CopyPageMaps_def)
  show "vmem (mm (snd (LoadApp X file_entry f s))) = vmem (mm s)"
    unfolding run using s1(5) by (simp add: CopyPageMaps_def)
  show "CR3 (mm (snd (LoadApp X file_entry f s))) = fr"
    unfolding run using s1(2) by (simp add: CopyPageMaps_def)
  show "ctx_cr3 (snd (LoadApp X file_entry f s)) = fr"
    unfolding run using s1(3) by simp
  show "tables (mm (snd (LoadApp X file_entry f s))) fr i =
           (if 4 \<le> i \<and> i < 256 \<and> pml4 cached \<noteq> fr then tables (mm s) (pml4 cached) i
            else if i < 256 then tables (mm s) (CR3 (mm s)) i
            else tables (mm s) fr i)"
    unfolding run snd_conv t s1(6) by simp
  show "g \<noteq> fr \<Longrightarrow> tables (mm (snd (LoadApp X file_entry f s))) g = tables (mm s) g"
    unfolding run snd_conv t s1(6) by simp
qed






subsection \<open>The end of the loaded image and the demand paging window\<close>

text \<open>
  The indices of the \<^verbatim>\<open>PT_LOAD\<close> program headers and the maximum of
  \<^verbatim>\<open>p_vaddr + p_memsz\<close> over them (in 64-bit arithmetic).
\<close>

definition load_segments :: "elf_file \<Rightarrow> nat list" where
  "load_segments f =
     filter (\<lambda>i. p_type (GetProgramHeader f i) = PT_LOAD) [0..<unat (e_phnum (ehdr f))]"

definition load_end :: "elf_file \<Rightarrow> u64" where
  "load_end f =
     Max (set (map (\<lambda>i. p_vaddr (GetProgramHeader f i) + p_memsz (GetProgramHeader f i))
                   (load_segments f)))"

lemma copy_segments_last:
  "copy_segments X f idx acc m = ((r, kSuccess), m') \<Longrightarrow>
     r = fold max
           (map (\<lambda>i. p_vaddr (GetProgramHeader f i) + p_memsz (GetProgramHeader f i))
                (filter (\<lambda>i. p_type (GetProgramHeader f i) = PT_LOAD) idx))
           acc"
proof (induction idx arbitrary: acc m)
  case Nil
  then show ?case by simp
next
  case (Cons i idx)
  show ?case
  proof (cases "p_type (GetProgramHeader f i) = PT_LOAD")
    case False
    then show ?thesis using Cons by simp
  next
    case True
    let ?ph = "GetProgramHeader f i"
    obtain err m1 where sp:
      "SetupPageMaps X (p_vaddr ?ph) ((p_memsz ?ph + 4095) div 4096) (Some False) m = (err, m1)"
      by (cases "SetupPageMaps X (p_vaddr ?ph) ((p_memsz ?ph + 4095) div 4096) (Some False) m")
        auto
    have ok: "err = kSuccess"
      using Cons.prems True sp by (auto simp: Let_def split: if_splits)
    have "copy_segments X f idx (max acc (p_vaddr ?ph + p_memsz ?ph))
            (m1\<lparr> vmem := copy_segment f ?ph (vmem m1) \<rparr>) = ((r, kSuccess), m')"
      using Cons.prems True sp ok by (simp add: Let_def)
    from Cons.IH [OF this] show ?thesis using True by (simp add: max.commute)
  qed
qed

lemma fold_max_zero:
  fixes xs :: "u64 list"
  assumes "xs \<noteq> []"
  shows "fold max xs 0 = Max (set xs)"
proof -
  have "fold max xs 0 = Max (set (0 # xs))" by (rule Max.set_eq_fold [symmetric])
  also have "\<dots> = max 0 (Max (set xs))" using assms by simp
  also have "\<dots> = Max (set xs)" by (simp add: max_def)
  finally show ?thesis .
qed

lemma first_load_nonzero:
  "first_load phdr idx \<noteq> 0 \<Longrightarrow> filter (\<lambda>i. p_type (phdr i) = PT_LOAD) idx \<noteq> []"
  by (induction idx) (auto split: if_splits)

lemma LoadELF_last:
  assumes "LoadELF X f m = ((r, kSuccess), m')"
  shows "r = load_end f"
proof -
  have chk: "e_type (ehdr f) = ET_EXEC" "\<not> GetFirstLoadAddress f < 0xffff800000000000"
    using assms by (auto simp: LoadELF_def Let_def split: if_splits)
  then have "GetFirstLoadAddress f \<noteq> 0" by auto
  then have ne: "load_segments f \<noteq> []"
    unfolding GetFirstLoadAddress_def load_segments_def by (rule first_load_nonzero)
  have "copy_segments X f [0..<unat (e_phnum (ehdr f))] 0 m = ((r, kSuccess), m')"
    using assms chk by (simp add: LoadELF_def CopyLoadSegments_def Let_def)
  from copy_segments_last [OF this] have "r = fold max
           (map (\<lambda>i. p_vaddr (GetProgramHeader f i) + p_memsz (GetProgramHeader f i))
                (load_segments f)) 0"
    by (simp add: load_segments_def)
  then show ?thesis using ne by (simp add: fold_max_zero load_end_def)
qed

lemma LoadApp_vaddr_end:
  assumes run: "LoadApp X file_entry f s = ((info, kSuccess), s')"
    and cache: "\<forall>c. app_loads s file_entry = Some c \<longrightarrow> vaddr_end c = load_end f"
  shows "vaddr_end info = load_end f"
proof (cases "free_frames (mm s)")
  case Nil
  then show ?thesis using run by (simp add: LoadApp_def SetupPML4_fail)
next
  case (Cons fr rest)
  obtain s1 where s1: "SetupPML4 s = ((fr, kSuccess), s1)"
    "CR3 (mm s1) = fr" "ctx_cr3 s1 = fr" "free_frames (mm s1) = rest"
    "vmem (mm s1) = vmem (mm s)"
    "tables (mm s1) = (tables (mm s))
           (fr := (\<lambda>i. if i < 256 then tables (mm s) (CR3 (mm s)) i else tables (mm s) fr i))"
    "app_loads s1 = app_loads s" "file_reads s1 = file_reads s"
    "dpaging_begin s1 = dpaging_begin s" "dpaging_end s1 = dpaging_end s"
    by (rule SetupPML4_ok [OF Cons])
  show ?thesis
  proof (cases "app_loads s file_entry")
    case (Some c)
    then have "fst (LoadApp X file_entry f s) = (c\<lparr> pml4 := fr \<rparr>, kSuccess)"
      using LoadApp_hit(1) [OF Some Cons] by simp
    then have "info = c\<lparr> pml4 := fr \<rparr>" using run by simp
    then show ?thesis using cache Some by simp
  next
    case None
    let ?s2 = "s1\<lparr> file_reads := file_reads s1 @ [file_entry] \<rparr>"
    obtain la err m3 where le: "LoadELF X f (mm ?s2) = ((la, err), m3)"
      by (cases "LoadELF X f (mm ?s2)") auto
    have magic: "map (e_ident (ehdr f)) [0..<4] = elf_magic"
      using run s1(1,7) None by (auto simp: LoadApp_def Let_def split: if_splits)
    have ok: "err = kSuccess"
      using run s1(1,7) None magic le
      by (auto simp: LoadApp_def Let_def split: if_splits prod.splits)
    have "vaddr_end info = la"
      using run s1(1,7) None magic le ok
      by (auto simp: LoadApp_def Let_def CopyPageMaps_def split: if_splits prod.splits)
    moreover have "la = load_end f" using le ok LoadELF_last by simp
    ultimately show ?thesis by simp
  qed
qed

lemma page_mask_eq: "(0xfffffffffffff000 :: u64) = NOT (mask 12)"
  by (simp add: mask_eq_exp_minus_1)

lemma and_page_shift: "(w :: u64) AND 0xfffffffffffff000 = push_bit 12 (drop_bit 12 w)"
  unfolding page_mask_eq
  by (rule bit_eqI) (auto simp: bit_simps)

lemma unat_and_page: "unat ((w :: u64) AND 0xfffffffffffff000) = unat w div 4096 * 4096"
proof -
  have lt: "unat w < 2 ^ 64" using unsigned_less [of w] by simp
  have tb: "take_bit 64 (unat w) = unat w"
    by (rule take_bit_nat_eq_self) (rule lt)
  have "unat (push_bit 12 (drop_bit 12 w)) = take_bit 64 (push_bit 12 (drop_bit 12 (unat w)))"
    using tb by (simp add: unsigned_push_bit_eq unsigned_drop_bit_eq)
  also have "\<dots> = take_bit 64 (unat w div 4096 * 4096)"
    by (simp add: push_bit_eq_mult drop_bit_eq_div)
  also have "\<dots> = unat w div 4096 * 4096"
  proof -
    have "unat w div 4096 * 4096 \<le> unat w" by simp
    then have "unat w div 4096 * 4096 < 2 ^ 64" using lt by linarith
    then show ?thesis by (simp add: take_bit_nat_eq_self_iff)
  qed
  finally show ?thesis by (simp add: and_page_shift)
qed

lemma ExecuteFile_setup_Inr:
  assumes run: "ExecuteFile_setup X file_entry f command first_arg argv0 argbuf0 s =
                  (Inr r, first_arg', s')"
  shows "\<exists>info s1. LoadApp X file_entry f s = ((info, kSuccess), s1) \<and>
           ready_app_load r = info \<and>
           dpaging_begin s' = (vaddr_end info + 4095) AND 0xfffffffffffff000 \<and>
           dpaging_end s' = (vaddr_end info + 4095) AND 0xfffffffffffff000"
proof -
  obtain info err s1 where la: "LoadApp X file_entry f s = ((info, err), s1)"
    by (cases "LoadApp X file_entry f s") auto
  show ?thesis
    using run la
    by (auto simp: ExecuteFile_setup_def Let_def split: prod.splits if_splits)
qed

text \<open>
  C8: when \<^verbatim>\<open>ExecuteFile\<close> reaches the call of \<^verbatim>\<open>CallApp\<close>, the demand paging window is
  empty, \<^verbatim>\<open>DPagingBegin = DPagingEnd\<close>, and lies at \<open>(load_end + 4095)\<close> rounded down to
  a multiple of 4096 (in 64-bit arithmetic), where \<open>load_end\<close>, the \<^verbatim>\<open>vaddr_end\<close> of the
  \<^verbatim>\<open>AppLoadInfo\<close> in use, is the maximum of \<^verbatim>\<open>p_vaddr + p_memsz\<close> over the \<^verbatim>\<open>PT_LOAD\<close>
  program headers of the file; unless the addition wraps around, this is the first
  multiple of 4096 at or past \<open>load_end\<close>. An entry of the load cache for the file,
  if there is one, is taken to come from this file.
\<close>

theorem ExecuteFile_dpaging:
  assumes run: "ExecuteFile_setup X file_entry f command first_arg argv0 argbuf0 s =
                  (Inr r, first_arg', s')"
    and cache: "\<forall>c. app_loads s file_entry = Some c \<longrightarrow> vaddr_end c = load_end f"
  shows "dpaging_begin s' = (load_end f + 4095) AND 0xfffffffffffff000 \<and>
         dpaging_end s' = dpaging_begin s' \<and>
         unat (dpaging_begin s') = unat (load_end f + 4095) div 4096 * 4096 \<and>
         vaddr_end (ready_app_load r) = load_end f \<and>
         (unat (load_end f) + 4095 < 2 ^ 64 \<longrightarrow>
            unat (load_end f) \<le> unat (dpaging_begin s') \<and>
            unat (dpaging_begin s') < unat (load_end f) + 4096)"
proof -
  from ExecuteFile_setup_Inr [OF run] obtain info s1 where
    la: "LoadApp X file_entry f s = ((info, kSuccess), s1)"
    and r: "ready_app_load r = info"
    and b: "dpaging_begin s' = (vaddr_end info + 4095) AND 0xfffffffffffff000"
    and e: "dpaging_end s' = (vaddr_end info + 4095) AND 0xfffffffffffff000"
    by blast
  have v: "vaddr_end info = load_end f"
    by (rule LoadApp_vaddr_end [OF la cache])
  have u: "unat (dpaging_begin s') = unat (load_end f + 4095) div 4096 * 4096"
    using b v by (simp add: unat_and_page)
  have near: "unat (load_end f) \<le> unat (dpaging_begin s') \<and>
              unat (dpaging_begin s') < unat (load_end f) + 4096"
    if "unat (load_end f) + 4095 < 2 ^ 64"
  proof -
    have "unat (load_end f + 4095) = unat (load_end f) + 4095"
      using that by (simp add: unat_add_lem [THEN iffD1])
    then have "unat (dpaging_begin s') = (unat (load_end f) + 4095) div 4096 * 4096"
      using u by simp
    then show ?thesis by arith
  qed
  show ?thesis using r b e v u near by simp
qed

lemma small_app_ready:
  "\<not> isl (fst (ExecuteFile_setup plain_ext 7 small_app ''app'' (Some ''x y'') (\<lambda>i. 0)
                   (\<lambda>a. NUL) idle_kernel))"
  by code_simp

theorem ExecuteFile_dpaging_witness:
  "app_loads idle_kernel 7 = None \<and>
   \<not> isl (fst (ExecuteFile_setup plain_ext 7 small_app ''app'' (Some ''x y'') (\<lambda>i. 0)
                   (\<lambda>a. NUL) idle_kernel)) \<and>
   load_end small_app = 0xffff800000001234 \<and>
   dpaging_begin (snd (snd (ExecuteFile_setup plain_ext 7 small_app ''app'' (Some ''x y'')
                              (\<lambda>i. 0) (\<lambda>a. NUL) idle_kernel))) = 0xffff800000002000 \<and>
   dpaging_end (snd (snd (ExecuteFile_setup plain_ext 7 small_app ''app'' (Some ''x y'')
                              (\<lambda>i. 0) (\<lambda>a. NUL) idle_kernel))) = 0xffff800000002000"
proof -
  let ?E = "ExecuteFile_setup plain_ext 7 small_app ''app'' (Some ''x y'') (\<lambda>i. 0)
              (\<lambda>a. NUL) idle_kernel"
  have miss: "app_loads idle_kernel 7 = None" by (simp add: idle_kernel_def)
  have ready: "\<not> isl (fst ?E)" by (rule small_app_ready)
  then obtain r where r: "fst ?E = Inr r" by (cases "fst ?E") auto
  have run: "?E = (Inr r, fst (snd ?E), snd (snd ?E))"
    using r by (simp add: prod_eq_iff)
  have cache: "\<forall>c. app_loads idle_kernel 7 = Some c \<longrightarrow> vaddr_end c = load_end small_app"
    using miss by simp
  have le: "load_end small_app = 0xffff800000001234" by code_simp
  have "(0xffff800000001234 + 4095 :: u64) AND 0xfffffffffffff000 = 0xffff800000002000"
    by simp
  then show ?thesis
    using ExecuteFile_dpaging [OF run cache] miss ready le by simp
qed

end
